theory Spec2Isabelle
  imports Main
begin

section \<open>Go strings\<close>

text \<open>
  A Go string is modelled by the sequence of runes (Unicode code points) that ranging over it
  yields. \<open>strings.Split\<close> with the separator \<open>"\n"\<close>, \<open>==\<close> and slicing act on that
  sequence as they act on the bytes of a UTF-8 string; \<open>strings.TrimSpace\<close> and
  \<open>strings.Fields\<close> decide white space rune by rune, with \<open>unicode.IsSpace\<close>.
\<close>

type_synonym rune = nat
type_synonym gostring = "rune list"

definition str :: "string \<Rightarrow> gostring" where
  "str s = map of_char s"

text \<open>
  \<open>unicode.IsSpace\<close>: in Latin-1 the runes \<open>\t \n \v \f \r\<close>, space, U+0085 and U+00A0;
  beyond Latin-1 the runes of the White_Space table.
\<close>

definition IsSpace :: "rune \<Rightarrow> bool" where
  "IsSpace r =
     (if r \<le> 0xFF then r = 0x09 \<or> r = 0x0A \<or> r = 0x0B \<or> r = 0x0C \<or> r = 0x0D \<or> r = 0x20
                         \<or> r = 0x85 \<or> r = 0xA0
      else r = 0x1680 \<or> (0x2000 \<le> r \<and> r \<le> 0x200A) \<or> r = 0x2028 \<or> r = 0x2029
           \<or> r = 0x202F \<or> r = 0x205F \<or> r = 0x3000)"

text \<open>
  \<open>strings.Split(s, "\n")\<close>: the substrings between the newlines; never the empty slice.
\<close>

fun Split_newline :: "gostring \<Rightarrow> gostring list" where
  "Split_newline [] = [[]]"
| "Split_newline (c # cs) =
     (if c = 0x0A then [] # Split_newline cs
      else (case Split_newline cs of
              [] \<Rightarrow> [[c]]
            | l # ls \<Rightarrow> (c # l) # ls))"

text \<open>\<open>strings.TrimSpace\<close>: leading and trailing white space removed.\<close>

definition TrimSpace :: "gostring \<Rightarrow> gostring" where
  "TrimSpace s = rev (dropWhile IsSpace (rev (dropWhile IsSpace s)))"

text \<open>
  \<open>strings.Fields\<close>: the maximal runs of runes that are not white space, in order; the
  empty slice when the string holds white space only.
\<close>

function Fields :: "gostring \<Rightarrow> gostring list" where
  "Fields s =
     (case dropWhile IsSpace s of
        [] \<Rightarrow> []
      | c # cs \<Rightarrow> (c # takeWhile (\<lambda>r. \<not> IsSpace r) cs)
                   # Fields (dropWhile (\<lambda>r. \<not> IsSpace r) cs))"
  by pat_completeness auto
termination
proof (relation "measure length")
  show "wf (measure length)" by simp
next
  fix s :: gostring and c cs
  assume d: "dropWhile IsSpace s = c # cs"
  have "length (dropWhile (\<lambda>r. \<not> IsSpace r) cs) \<le> length cs"
    by (rule length_dropWhile_le)
  moreover have "length (dropWhile IsSpace s) \<le> length s"
    by (rule length_dropWhile_le)
  ultimately have "length (dropWhile (\<lambda>r. \<not> IsSpace r) cs) < length s"
    using d by simp
  then show "(dropWhile (\<lambda>r. \<not> IsSpace r) cs, s) \<in> measure length" by simp
qed

declare Fields.simps [simp del]

section \<open>The Status Prober\<close>

definition Pending :: gostring where "Pending = str ''Pending''"
definition Unknown :: gostring where "Unknown = str ''Unknown''"
definition Success :: gostring where "Success = str ''Success''"
definition Failed :: gostring where "Failed = str ''Failed''"

text \<open>
  \<open>getGitStatus\<close> (lines 131-152). Its argument is what \<open>cmd.Output()\<close> returned for
  \<open>git -C dir remote -v\<close>: the bytes of standard output and whether \<open>err\<close> is non-nil.
  The calls of the logger write a line and return; they are left out.
\<close>

definition getGitStatus :: "gostring \<times> bool \<Rightarrow> gostring \<times> gostring" where
  "getGitStatus res =
     (case res of (output, err) \<Rightarrow>
        if err then ([], Unknown)
        else (case Split_newline output of
                [] \<Rightarrow> ([], Unknown)
              | line0 # _ \<Rightarrow>
                  (let remoteLine = TrimSpace line0;
                       remoteParts = Fields remoteLine
                   in if length remoteParts \<noteq> 3 then ([], Unknown)
                      else (remoteParts ! 1, Pending))))"

text \<open>
  The phrase of the specification "the line consists of exactly three whitespace-separated
  fields \<open>f1\<close>, \<open>f2\<close>, \<open>f3\<close>", written out: white space may lead and trail, and separates
  the fields, which are non-empty and free of white space.
\<close>

definition three_fields :: "gostring \<Rightarrow> gostring \<Rightarrow> gostring \<Rightarrow> gostring \<Rightarrow> bool" where
  "three_fields line f1 f2 f3 =
     (\<exists>w0 w1 w2 w3.
        line = w0 @ f1 @ w1 @ f2 @ w2 @ f3 @ w3
        \<and> list_all IsSpace w0 \<and> list_all IsSpace w1 \<and> list_all IsSpace w2 \<and> list_all IsSpace w3
        \<and> w1 \<noteq> [] \<and> w2 \<noteq> []
        \<and> f1 \<noteq> [] \<and> f2 \<noteq> [] \<and> f3 \<noteq> []
        \<and> list_all (\<lambda>r. \<not> IsSpace r) f1 \<and> list_all (\<lambda>r. \<not> IsSpace r) f2
        \<and> list_all (\<lambda>r. \<not> IsSpace r) f3)"


section \<open>The Result Aggregator\<close>

text \<open>
  \<open>g.summary\<close> is a slice of rows, each row a slice of strings. Indexing a row out of
  range panics in Go; the panic is a value of the model.
\<close>

datatype panic = IndexOutOfRange | NilPointer

type_synonym row = "gostring list"

text \<open>
  \<open>updateStatus\<close> (lines 122-129): the loop over the rows stops at the first row whose
  element 0 equals \<open>dir\<close>, after storing \<open>status\<close> in its element 2.
\<close>

fun updateStatus :: "gostring \<Rightarrow> gostring \<Rightarrow> row list \<Rightarrow> panic + row list" where
  "updateStatus dir status [] = Inr []"
| "updateStatus dir status (r # rest) =
     (case r of
        [] \<Rightarrow> Inl IndexOutOfRange
      | p # _ \<Rightarrow>
          if p = dir then
            (if length r < 3 then Inl IndexOutOfRange else Inr (r[2 := status] # rest))
          else (case updateStatus dir status rest of
                  Inl e \<Rightarrow> Inl e
                | Inr rest' \<Rightarrow> Inr (r # rest')))"

section \<open>The Tree Walker\<close>

text \<open>
  A path is modelled by the list of the pieces between the separators of the Go string:
  \<open>"r/.git/"\<close> is \<open>[r, .git, ""]\<close>, \<open>"/a"\<close> is \<open>["", a]\<close>, \<open>"."\<close> is \<open>[.]\<close> and the empty
  string is \<open>[""]\<close>. \<open>Split_slash\<close> reads a string as a path and \<open>path_str\<close> writes a path
  as a string. \<open>Clean\<close>, \<open>filepath_Join\<close> and \<open>filepath_Dir\<close> are \<open>filepath.Clean\<close>,
  \<open>filepath.Join\<close> of a path and a name, and \<open>filepath.Dir\<close> of the Go standard library on
  Unix, and \<open>basename\<close> is the name that \<open>os.Lstat\<close> puts into the \<open>FileInfo\<close> of the path it
  is given.

  The directory tree is the snapshot that \<open>os.Lstat\<close> and the directory listings show during
  the walk. \<open>File\<close> stands for every entry that \<open>Lstat\<close> does not report as a directory
  (regular files, symbolic links, devices); \<open>Folder\<close> lists its entries in the order
  \<open>readDirNames\<close> returns them; \<open>NoRead\<close> is a directory whose listing fails; \<open>NoStat\<close>
  is an entry on which \<open>Lstat\<close> fails.
\<close>

type_synonym path = "gostring list"

datatype node =
    File gostring
  | Folder gostring "node list"
  | NoRead gostring
  | NoStat gostring

fun name_of :: "node \<Rightarrow> gostring" where
  "name_of (File n) = n"
| "name_of (Folder n kids) = n"
| "name_of (NoRead n) = n"
| "name_of (NoStat n) = n"

fun is_dir :: "node \<Rightarrow> bool" where
  "is_dir (File n) = False"
| "is_dir (Folder n kids) = True"
| "is_dir (NoRead n) = True"
| "is_dir (NoStat n) = False"

fun is_NoStat :: "node \<Rightarrow> bool" where
  "is_NoStat (NoStat n) = True"
| "is_NoStat t = False"

record FileInfo =
  Name :: gostring
  IsDir :: bool

fun rename :: "gostring \<Rightarrow> node \<Rightarrow> node" where
  "rename m (File n) = File m"
| "rename m (Folder n kids) = Folder m kids"
| "rename m (NoRead n) = NoRead m"
| "rename m (NoStat n) = NoStat m"

fun Split_slash :: "gostring \<Rightarrow> path" where
  "Split_slash [] = [[]]"
| "Split_slash (c # cs) =
     (if c = 0x2F then [] # Split_slash cs
      else (case Split_slash cs of
              [] \<Rightarrow> [[c]]
            | x # xs \<Rightarrow> (c # x) # xs))"

fun path_str :: "path \<Rightarrow> gostring" where
  "path_str [] = []"
| "path_str [n] = n"
| "path_str (n # m # ns) = n @ [0x2F] @ path_str (m # ns)"

text \<open>The string starts with a separator.\<close>

definition is_rooted :: "path \<Rightarrow> bool" where
  "is_rooted p = (case p of [] \<Rightarrow> False | x # xs \<Rightarrow> x = [] \<and> xs \<noteq> [])"

text \<open>
  \<open>filepath.Clean\<close>: empty pieces (repeated separators) and \<open>.\<close> are dropped; \<open>..\<close> removes
  the piece before it unless that is \<open>..\<close> itself, is dropped at the start of a rooted path,
  and is kept otherwise. The result of a rooted path starts with the separator; an empty
  result is \<open>"."\<close>. \<open>clean_elems\<close> is the loop, \<open>out\<close> the pieces written so far.
\<close>

fun clean_elems :: "bool \<Rightarrow> path \<Rightarrow> path \<Rightarrow> path" where
  "clean_elems rooted out [] = out"
| "clean_elems rooted out (x # xs) =
     (if x = [] \<or> x = str ''.'' then clean_elems rooted out xs
      else if x = str ''..'' then
        (if out \<noteq> [] \<and> last out \<noteq> str ''..'' then clean_elems rooted (butlast out) xs
         else if rooted then clean_elems rooted out xs
         else clean_elems rooted (out @ [x]) xs)
      else clean_elems rooted (out @ [x]) xs)"

definition rooted_form :: "bool \<Rightarrow> path \<Rightarrow> path" where
  "rooted_form rooted out =
     (if rooted then [] # (if out = [] then [[]] else out)
      else if out = [] then [str ''.''] else out)"

definition Clean :: "path \<Rightarrow> path" where
  "Clean p = rooted_form (is_rooted p) (clean_elems (is_rooted p) [] p)"

text \<open>
  \<open>filepath.Join(path, name)\<close>: the elements that are not the empty string, joined by the
  separator and cleaned.
\<close>

definition filepath_Join :: "path \<Rightarrow> gostring \<Rightarrow> path" where
  "filepath_Join p n =
     (if p = [] \<or> p = [[]] then (if n = [] then [[]] else Clean [n])
      else Clean (p @ [n]))"

text \<open>\<open>filepath.Dir\<close>: the string up to and including its last separator, cleaned.\<close>

definition filepath_Dir :: "path \<Rightarrow> path" where
  "filepath_Dir p = Clean (butlast p @ [[]])"

text \<open>
  \<open>basename\<close> of package \<open>os\<close>: trailing separators are removed, but never the first
  character of the string, then everything up to the last separator.
\<close>

definition basename :: "path \<Rightarrow> gostring" where
  "basename p =
     (case dropWhile (\<lambda>x. x = []) (rev p) of
        [] \<Rightarrow> (if 2 \<le> length p then [0x2F] else [])
      | x # _ \<Rightarrow> x)"

text \<open>
  The names a directory listing holds: not empty, not \<open>.\<close> or \<open>..\<close>, and free of the
  separator.
\<close>

definition named :: "gostring \<Rightarrow> bool" where
  "named n = (n \<noteq> [] \<and> n \<noteq> str ''.'' \<and> n \<noteq> str ''..'')"

definition entry_name :: "gostring \<Rightarrow> bool" where
  "entry_name n = (named n \<and> 0x2F \<notin> set n)"

text \<open>
  What a \<open>WalkFunc\<close> returns: \<open>nil\<close>, \<open>filepath.SkipDir\<close>, another error, or a panic of the
  callback (it unwinds the walk as an error does).
\<close>

datatype walk_err = ErrNil | SkipDir | ErrOther | NilDereference

text \<open>
  \<open>visit\<close> (lines 80-96). The state it threads is the list of directories for which it has
  run \<open>g.wg.Add(1); go g.pullRepository(repoDir)\<close>, in spawning order. \<open>info\<close> is \<open>None\<close> for
  the nil \<open>FileInfo\<close> that comes with an \<open>Lstat\<close> error.
\<close>

definition visit :: "path \<Rightarrow> FileInfo option \<Rightarrow> bool \<Rightarrow> path list \<Rightarrow> walk_err \<times> path list" where
  "visit p info err spawned =
     (if err then (ErrNil, spawned)
      else (case info of
              None \<Rightarrow> (NilDereference, spawned)
            | Some i \<Rightarrow>
                if IsDir i \<and> Name i = str ''.git''
                then (let repoDir = filepath_Dir p in (SkipDir, spawned @ [repoDir]))
                else (ErrNil, spawned)))"

text \<open>
  \<open>filepath.Walk\<close> of the Go standard library, which \<open>run\<close> calls with \<open>g.visit\<close>:
  \<open>walk\<close> is its function of the same name, \<open>walk_names\<close> the loop of \<open>walk\<close> over the
  names of a directory, \<open>Walk\<close> the entry point, which turns \<open>SkipDir\<close> into \<open>nil\<close>.
  A directory is announced to the callback before its entries; \<open>SkipDir\<close> returned for a
  directory skips the entries of that directory, \<open>SkipDir\<close> returned for another entry
  skips the remaining entries of the directory that holds it.
\<close>

fun walk :: "(path \<Rightarrow> FileInfo option \<Rightarrow> bool \<Rightarrow> 's \<Rightarrow> walk_err \<times> 's) \<Rightarrow> path \<Rightarrow> node \<Rightarrow> 's \<Rightarrow> walk_err \<times> 's"
and walk_names :: "(path \<Rightarrow> FileInfo option \<Rightarrow> bool \<Rightarrow> 's \<Rightarrow> walk_err \<times> 's) \<Rightarrow> path \<Rightarrow> node list \<Rightarrow> 's \<Rightarrow> walk_err \<times> 's"
where
  "walk walkFn p (File n) st = walkFn p (Some \<lparr>Name = n, IsDir = False\<rparr>) False st"
| "walk walkFn p (NoRead n) st = walkFn p (Some \<lparr>Name = n, IsDir = True\<rparr>) True st"
| "walk walkFn p (NoStat n) st = walkFn p None True st"
| "walk walkFn p (Folder n kids) st =
     (case walkFn p (Some \<lparr>Name = n, IsDir = True\<rparr>) False st of
        (err1, st1) \<Rightarrow>
          if err1 \<noteq> ErrNil then (err1, st1)
          else walk_names walkFn p kids st1)"
| "walk_names walkFn p [] st = (ErrNil, st)"
| "walk_names walkFn p (k # ks) st =
     (let filename = filepath_Join p (name_of k) in
      if is_NoStat k then
        (case walkFn filename None True st of
           (err, st1) \<Rightarrow>
             if err \<noteq> ErrNil \<and> err \<noteq> SkipDir then (err, st1)
             else walk_names walkFn p ks st1)
      else
        (case walk walkFn filename k st of
           (err, st1) \<Rightarrow>
             if err \<noteq> ErrNil \<and> (\<not> is_dir k \<or> err \<noteq> SkipDir) then (err, st1)
             else walk_names walkFn p ks st1))"

text \<open>
  \<open>Walk root\<close> calls \<open>os.Lstat\<close> on the root as it is written; the \<open>FileInfo\<close> it gets
  carries \<open>basename root\<close>, and \<open>visit\<close> receives the root path unchanged. \<open>t\<close> is the
  tree the root path leads to.
\<close>

definition Walk :: "(path \<Rightarrow> FileInfo option \<Rightarrow> bool \<Rightarrow> 's \<Rightarrow> walk_err \<times> 's) \<Rightarrow> path \<Rightarrow> node \<Rightarrow> 's \<Rightarrow> walk_err \<times> 's" where
  "Walk walkFn root t st =
     (case walk walkFn root (rename (basename root) t) st of
        (err, st1) \<Rightarrow> (if err = SkipDir then ErrNil else err, st1))"

text \<open>All entries of a tree, each with its path.\<close>

fun entries :: "path \<Rightarrow> node \<Rightarrow> (path \<times> node) list"
and entries_in :: "path \<Rightarrow> node list \<Rightarrow> (path \<times> node) list"
where
  "entries p (Folder n kids) = (p, Folder n kids) # entries_in p kids"
| "entries p (File n) = [(p, File n)]"
| "entries p (NoRead n) = [(p, NoRead n)]"
| "entries p (NoStat n) = [(p, NoStat n)]"
| "entries_in p [] = []"
| "entries_in p (k # ks) = entries (filepath_Join p (name_of k)) k @ entries_in p ks"

text \<open>A directory holds no two entries of the same name.\<close>

fun distinct_names :: "node \<Rightarrow> bool"
and distinct_names_in :: "node list \<Rightarrow> bool"
where
  "distinct_names (Folder n kids) = (distinct (map name_of kids) \<and> distinct_names_in kids)"
| "distinct_names (File n) = True"
| "distinct_names (NoRead n) = True"
| "distinct_names (NoStat n) = True"
| "distinct_names_in [] = True"
| "distinct_names_in (k # ks) = (distinct_names k \<and> distinct_names_in ks)"

text \<open>Every entry below the root carries a name that a directory listing can hold.\<close>

fun entry_names :: "node \<Rightarrow> bool"
and entry_names_in :: "node list \<Rightarrow> bool"
where
  "entry_names (Folder n kids) = entry_names_in kids"
| "entry_names (File n) = True"
| "entry_names (NoRead n) = True"
| "entry_names (NoStat n) = True"
| "entry_names_in [] = True"
| "entry_names_in (k # ks) = (entry_name (name_of k) \<and> entry_names k \<and> entry_names_in ks)"

text \<open>
  What \<open>visit\<close> can report in a tree: \<open>filepath.Dir\<close> of the paths of its readable
  directories named \<open>.git\<close>.
\<close>

definition git_folder_parents :: "path \<Rightarrow> node \<Rightarrow> path set" where
  "git_folder_parents p t =
     {filepath_Dir q | q kids. (q, Folder (str ''.git'') kids) \<in> set (entries p t)}"

text \<open>
  The shape of the pieces that \<open>clean_elems\<close> writes: a run of \<open>..\<close>, none of them in a
  rooted path, followed by names. \<open>below p ns\<close> is the cleaned path of the entry reached
  from the path \<open>p\<close> through the names \<open>ns\<close>, and \<open>walked root ms pp\<close> says that \<open>pp\<close> is
  the path the walk started at \<open>root\<close> hands to the callback for the entry reached through
  \<open>ms\<close>: the root as it is written, and the cleaned path below it.
\<close>

definition canon :: "bool \<Rightarrow> path \<Rightarrow> bool" where
  "canon rooted out =
     (\<exists>k pl. out = replicate k (str ''..'') @ pl \<and> list_all named pl \<and> (rooted \<longrightarrow> k = 0))"

definition below :: "path \<Rightarrow> path \<Rightarrow> path" where
  "below p ns = rooted_form (is_rooted p) (clean_elems (is_rooted p) [] p @ ns)"

definition walked :: "path \<Rightarrow> path \<Rightarrow> path \<Rightarrow> bool" where
  "walked root ms pp = (list_all named ms \<and> ((ms = [] \<and> pp = root) \<or> pp = below root ms))"

section \<open>The Repository Syncer\<close>

text \<open>
  The outside world of a task: what \<open>git -C dir remote -v\<close> prints and whether
  \<open>cmd.Output()\<close> returns an error, and whether \<open>cmd.Run()\<close> returns an error for
  \<open>git -C dir pull\<close> (it does on a non-zero exit and when the command cannot be executed).
  In both fields \<open>True\<close> stands for a non-nil error.
\<close>

record git =
  remote_v :: "gostring \<Rightarrow> gostring \<times> bool"
  pull :: "gostring \<Rightarrow> bool"

datatype command = GitRemote gostring | GitPull gostring

text \<open>
  Of the fields of \<open>GitPullCommand\<close> the tasks share \<open>summary\<close>, guarded by \<open>mu\<close>. \<open>cmds\<close>
  is the history of the external commands run so far, each entered with the critical
  section that follows it; it is not a field of the source.
\<close>

record GitPullCommand =
  summary :: "row list"
  cmds :: "command list"

text \<open>
  \<open>pullRepository\<close> (lines 98-120) touches the shared collection in two critical sections.
  \<open>pullRepository_record\<close> is lines 101-104: the probe, then the append under the lock.
  \<open>pullRepository_pull\<close> is lines 106-119: the pull, then \<open>updateStatus\<close> under the lock.
  \<open>pullRepository\<close> is the whole function run without interruption.
\<close>

definition pullRepository_record :: "git \<Rightarrow> gostring \<Rightarrow> GitPullCommand \<Rightarrow> GitPullCommand" where
  "pullRepository_record env dir g =
     (case getGitStatus (remote_v env dir) of
        (remote, status) \<Rightarrow>
          g\<lparr>summary := summary g @ [[dir, remote, status]],
            cmds := cmds g @ [GitRemote dir]\<rparr>)"

definition pullRepository_pull :: "git \<Rightarrow> gostring \<Rightarrow> GitPullCommand \<Rightarrow> panic + GitPullCommand" where
  "pullRepository_pull env dir g =
     (let err = pull env dir;
          g1 = g\<lparr>cmds := cmds g @ [GitPull dir]\<rparr>
      in case updateStatus dir (if err then Failed else Success) (summary g1) of
           Inl p \<Rightarrow> Inl p
         | Inr s \<Rightarrow> Inr (g1\<lparr>summary := s\<rparr>))"

definition pullRepository :: "git \<Rightarrow> gostring \<Rightarrow> GitPullCommand \<Rightarrow> panic + GitPullCommand" where
  "pullRepository env dir g = pullRepository_pull env dir (pullRepository_record env dir g)"

section \<open>Concurrent tasks\<close>

text \<open>
  \<open>visit\<close> starts one goroutine per reported directory. A goroutine is \<open>Spawned\<close> until it
  has left its first critical section, \<open>Recorded\<close> until it has left its second one, and
  \<open>Finished\<close> afterwards (\<open>g.wg.Done()\<close> has run). The mutex makes each critical section
  atomic, so an execution of the tasks on the directories \<open>dirs\<close> is a schedule: the list
  of the task indices in the order in which the tasks take the lock. An index that names no
  task, or a task that has finished, takes no step.
\<close>

datatype phase = Spawned | Recorded | Finished

fun phase_rank :: "phase \<Rightarrow> nat" where
  "phase_rank Spawned = 0"
| "phase_rank Recorded = 1"
| "phase_rank Finished = 2"

definition step :: "git \<Rightarrow> gostring list \<Rightarrow> nat \<Rightarrow> phase list \<times> GitPullCommand
                      \<Rightarrow> panic + phase list \<times> GitPullCommand" where
  "step env dirs i s =
     (case s of (ps, g) \<Rightarrow>
        if i < length dirs \<and> i < length ps then
          (case ps ! i of
             Spawned \<Rightarrow> Inr (ps[i := Recorded], pullRepository_record env (dirs ! i) g)
           | Recorded \<Rightarrow>
               (case pullRepository_pull env (dirs ! i) g of
                  Inl p \<Rightarrow> Inl p
                | Inr g' \<Rightarrow> Inr (ps[i := Finished], g'))
           | Finished \<Rightarrow> Inr (ps, g))
        else Inr (ps, g))"

fun exec :: "git \<Rightarrow> gostring list \<Rightarrow> nat list \<Rightarrow> phase list \<times> GitPullCommand
               \<Rightarrow> panic + phase list \<times> GitPullCommand" where
  "exec env dirs [] s = Inr s"
| "exec env dirs (i # sched) s =
     (case step env dirs i s of
        Inl p \<Rightarrow> Inl p
      | Inr s' \<Rightarrow> exec env dirs sched s')"

definition spawn :: "gostring list \<Rightarrow> phase list \<times> GitPullCommand" where
  "spawn dirs = (replicate (length dirs) Spawned, \<lparr>summary = [], cmds = []\<rparr>)"

text \<open>\<open>g.wg.Wait()\<close> returns once every task has finished.\<close>

definition all_done :: "phase list \<Rightarrow> bool" where
  "all_done ps = list_all (\<lambda>p. p = Finished) ps"

section \<open>The command\<close>

text \<open>
  \<open>run\<close> (lines 67-78). \<open>fs dir\<close> is the tree the argument \<open>dir\<close> leads to; the walk
  starts at \<open>dir\<close> as it is written. The tasks run under the schedule \<open>sched\<close>; \<open>run\<close>
  returns the command as \<open>printSummary\<close> reads it, panics, or blocks in \<open>g.wait()\<close> when the
  schedule leaves a task unfinished.
\<close>

datatype 'a result = Returns 'a | Panics panic | Blocks

definition run :: "git \<Rightarrow> (gostring \<Rightarrow> node) \<Rightarrow> nat list \<Rightarrow> gostring list
                      \<Rightarrow> GitPullCommand result" where
  "run env fs sched args =
     (case args of
        [] \<Rightarrow> Panics IndexOutOfRange
      | dir # _ \<Rightarrow>
          (case Walk visit (Split_slash dir) (fs dir) [] of (err, spawned) \<Rightarrow>
             if err = NilDereference then Panics NilPointer
             else
               (case exec env (map path_str spawned) sched (spawn (map path_str spawned)) of
                  Inl p \<Rightarrow> Panics p
                | Inr (ps, g) \<Rightarrow> if all_done ps then Returns g else Blocks)))"

text \<open>
  The command line as the cobra library reads it: a flag error, a request for help, or the
  positional arguments. \<open>Execute\<close> checks \<open>Args: cobra.ExactArgs(1)\<close> before it calls
  \<open>Run: g.run\<close>; it returns whether its error is non-nil, and what \<open>run\<close> did if it was called.
\<close>

datatype cmdline = FlagError | Help | Positional "gostring list"

definition Execute :: "git \<Rightarrow> (gostring \<Rightarrow> node) \<Rightarrow> nat list \<Rightarrow> cmdline
                          \<Rightarrow> bool \<times> GitPullCommand result option" where
  "Execute env fs sched cl =
     (case cl of
        FlagError \<Rightarrow> (True, None)
      | Help \<Rightarrow> (False, None)
      | Positional args \<Rightarrow>
          if length args \<noteq> 1 then (True, None)
          else (False, Some (run env fs sched args)))"

text \<open>
  \<open>main\<close> (lines 171-176) with \<open>NewGitPullCommand\<close> and \<open>setupLogger\<close> (lines 26-65).
  \<open>levelOK\<close> says that \<open>logrus.ParseLevel(g.logLevel)\<close> returned no error. The result is how
  the process ends, with what \<open>run\<close> did if it was called: \<open>Exit c\<close> for \<open>os.Exit(c)\<close> and for
  the return from \<open>main\<close> (\<open>c = 0\<close>), \<open>Crash\<close> for a panic, \<open>Hang\<close> when \<open>g.wait()\<close> blocks.
\<close>

datatype ending = Exit nat | Crash | Hang

definition main :: "bool \<Rightarrow> cmdline \<Rightarrow> git \<Rightarrow> (gostring \<Rightarrow> node) \<Rightarrow> nat list
                      \<Rightarrow> ending \<times> GitPullCommand result option" where
  "main levelOK cl env fs sched =
     (if \<not> levelOK then (Exit 1, None)
      else (case Execute env fs sched cl of
              (err, r) \<Rightarrow>
                (case r of
                   Some (Panics p) \<Rightarrow> (Crash, r)
                 | Some Blocks \<Rightarrow> (Hang, r)
                 | _ \<Rightarrow> if err then (Exit 1, r) else (Exit 0, r))))"

section \<open>Invariants of the tasks\<close>

text \<open>
  The row a task appends, the status it stores after the pull, and the row as it stands
  after the task has finished.
\<close>

definition initial_row :: "git \<Rightarrow> gostring \<Rightarrow> row" where
  "initial_row env d = (case getGitStatus (remote_v env d) of (remote, status) \<Rightarrow> [d, remote, status])"

definition final_status :: "git \<Rightarrow> gostring \<Rightarrow> gostring" where
  "final_status env d = (if pull env d then Failed else Success)"

definition final_row :: "git \<Rightarrow> gostring \<Rightarrow> row" where
  "final_row env d = (initial_row env d)[2 := final_status env d]"

text \<open>The rows \<open>pullRepository\<close> appends have three elements.\<close>

definition rows_wf :: "row list \<Rightarrow> bool" where
  "rows_wf rows = list_all (\<lambda>r. length r = 3) rows"

text \<open>
  \<open>basic_inv\<close> holds in every state that a schedule reaches, whatever the directories are:
  it counts the external commands run so far. \<open>tasks_inv\<close> holds when the directories are
  pairwise distinct: the collection holds one row per task that has left its first critical
  section, in the state the phase of the task tells.
\<close>

definition basic_inv :: "gostring list \<Rightarrow> phase list \<times> GitPullCommand \<Rightarrow> bool" where
  "basic_inv dirs s =
     (case s of (ps, g) \<Rightarrow>
        length ps = length dirs \<and> rows_wf (summary g)
        \<and> (\<forall>d. count_list (cmds g) (GitPull d)
                 = card {i. i < length dirs \<and> dirs ! i = d \<and> ps ! i = Finished})
        \<and> (\<forall>d. count_list (cmds g) (GitRemote d)
                 = card {i. i < length dirs \<and> dirs ! i = d \<and> ps ! i \<noteq> Spawned}))"

definition tasks_inv :: "git \<Rightarrow> gostring list \<Rightarrow> phase list \<times> GitPullCommand \<Rightarrow> bool" where
  "tasks_inv env dirs s =
     (case s of (ps, g) \<Rightarrow>
        length ps = length dirs \<and> rows_wf (summary g)
        \<and> distinct (map hd (summary g))
        \<and> hd ` set (summary g) = {dirs ! i | i. i < length dirs \<and> ps ! i \<noteq> Spawned}
        \<and> (\<forall>i<length dirs.
              (ps ! i = Recorded \<longrightarrow> initial_row env (dirs ! i) \<in> set (summary g))
            \<and> (ps ! i = Finished \<longrightarrow> final_row env (dirs ! i) \<in> set (summary g))))"

text \<open>What \<open>updateStatus\<close> does to a row when the paths of the collection are distinct.\<close>

definition set_status :: "gostring \<Rightarrow> gostring \<Rightarrow> row \<Rightarrow> row" where
  "set_status d st r = (if hd r = d then r[2 := st] else r)"


section \<open>Properties of the Status Prober\<close>

lemma Fields_unfold_Nil: "dropWhile IsSpace s = [] \<Longrightarrow> Fields s = []"
  using Fields.simps [of s] by (simp only: list.case)

lemma Fields_unfold_Cons:
  "dropWhile IsSpace s = c # cs \<Longrightarrow>
   Fields s = (c # takeWhile (\<lambda>r. \<not> IsSpace r) cs) # Fields (dropWhile (\<lambda>r. \<not> IsSpace r) cs)"
  using Fields.simps [of s] by (simp only: list.case)

lemma Fields_blank: "\<forall>c\<in>set w. IsSpace c \<Longrightarrow> Fields w = []"
proof -
  assume "\<forall>c\<in>set w. IsSpace c"
  then have "dropWhile IsSpace w = []" by simp
  then show ?thesis by (rule Fields_unfold_Nil)
qed

lemma Fields_prepend_blank: "\<forall>c\<in>set w. IsSpace c \<Longrightarrow> Fields (w @ s) = Fields s"
proof -
  assume "\<forall>c\<in>set w. IsSpace c"
  then have "dropWhile IsSpace (w @ s) = dropWhile IsSpace s"
    by (simp add: dropWhile_append2)
  then show ?thesis by (simp only: Fields.simps [of "w @ s"] Fields.simps [of s])
qed

lemma Fields_word:
  assumes "f \<noteq> []" and "\<forall>c\<in>set f. \<not> IsSpace c" and "rest = [] \<or> IsSpace (hd rest)"
  shows "Fields (f @ rest) = f # Fields rest"
proof -
  obtain c cs where f: "f = c # cs" using assms(1) by (cases f) auto
  have c: "\<not> IsSpace c" and cs: "\<forall>x\<in>set cs. \<not> IsSpace x" using assms(2) f by auto
  have d: "dropWhile IsSpace (f @ rest) = c # (cs @ rest)" using f c by simp
  have r: "takeWhile (\<lambda>r. \<not> IsSpace r) rest = [] \<and> dropWhile (\<lambda>r. \<not> IsSpace r) rest = rest"
    using assms(3) by (cases rest) auto
  have t: "takeWhile (\<lambda>r. \<not> IsSpace r) (cs @ rest) = cs"
    using cs r by (simp add: takeWhile_append2)
  have e: "dropWhile (\<lambda>r. \<not> IsSpace r) (cs @ rest) = rest"
    using cs r by (simp add: dropWhile_append2)
  show ?thesis
    using Fields_unfold_Cons [OF d] by (simp only: t e f)
qed

lemma hd_blank_append:
  "r = [] \<or> IsSpace (hd r) \<Longrightarrow> \<forall>c\<in>set w. IsSpace c \<Longrightarrow> r @ w = [] \<or> IsSpace (hd (r @ w))"
  by (cases r; cases w) auto

lemma Fields_append_blank: "\<forall>c\<in>set w. IsSpace c \<Longrightarrow> Fields (s @ w) = Fields s"
proof (induction s rule: Fields.induct)
  case (1 s)
  show ?case
  proof (cases "dropWhile IsSpace s")
    case Nil
    then have "\<forall>c\<in>set s. IsSpace c" by (simp add: dropWhile_eq_Nil_conv)
    then have "\<forall>c\<in>set (s @ w). IsSpace c" using 1(2) by auto
    then have "Fields (s @ w) = []" by (rule Fields_blank)
    moreover have "Fields s = []" using Nil by (rule Fields_unfold_Nil)
    ultimately show ?thesis by simp
  next
    case (Cons c cs)
    let ?f = "c # takeWhile (\<lambda>r. \<not> IsSpace r) cs"
    let ?r = "dropWhile (\<lambda>r. \<not> IsSpace r) cs"
    have s: "s = takeWhile IsSpace s @ ?f @ ?r"
      using Cons takeWhile_dropWhile_id [of IsSpace s] by simp
    have c: "\<not> IsSpace c" using Cons hd_dropWhile [of IsSpace s] by auto
    have fw: "\<forall>x\<in>set ?f. \<not> IsSpace x" using c by (auto dest: set_takeWhileD)
    have rr: "?r = [] \<or> IsSpace (hd ?r)" using hd_dropWhile [of "\<lambda>r. \<not> IsSpace r" cs] by auto
    have rw: "?r @ w = [] \<or> IsSpace (hd (?r @ w))"
      using rr 1(2) by (rule hd_blank_append)
    have "Fields (s @ w) = Fields (takeWhile IsSpace s @ (?f @ (?r @ w)))"
      using s by (metis append.assoc)
    also have "\<dots> = Fields (?f @ (?r @ w))"
      by (rule Fields_prepend_blank) (auto dest: set_takeWhileD)
    also have "\<dots> = ?f # Fields (?r @ w)"
      using fw rw by (intro Fields_word) auto
    also have "\<dots> = ?f # Fields ?r"
      using 1(1) [OF Cons] 1(2) by simp
    also have "\<dots> = Fields s"
      using Fields_unfold_Cons [OF Cons] by simp
    finally show ?thesis .
  qed
qed

lemma Fields_TrimSpace: "Fields (TrimSpace s) = Fields s"
proof -
  let ?d = "dropWhile IsSpace s"
  have "rev (takeWhile IsSpace (rev ?d) @ dropWhile IsSpace (rev ?d)) = rev (rev ?d)"
    by (simp only: takeWhile_dropWhile_id)
  then have d: "?d = TrimSpace s @ rev (takeWhile IsSpace (rev ?d))"
    by (simp only: rev_append rev_rev_ident TrimSpace_def)
  have "Fields s = Fields (takeWhile IsSpace s @ ?d)" by simp
  also have "\<dots> = Fields ?d"
    by (rule Fields_prepend_blank) (auto dest: set_takeWhileD)
  also have "\<dots> = Fields (TrimSpace s @ rev (takeWhile IsSpace (rev ?d)))"
    using d by simp
  also have "\<dots> = Fields (TrimSpace s)"
    by (rule Fields_append_blank) (auto dest: set_takeWhileD)
  finally show ?thesis by simp
qed

lemma Fields_Nil_blank: "Fields s = [] \<Longrightarrow> \<forall>c\<in>set s. IsSpace c"
proof (cases "dropWhile IsSpace s")
  case Nil
  then show ?thesis by simp
next
  case (Cons c cs)
  assume "Fields s = []"
  then show ?thesis using Fields_unfold_Cons [OF Cons] by simp
qed

lemma Fields_Cons_split:
  assumes "Fields s = f # fs"
  shows "\<exists>w rest. s = w @ f @ rest \<and> (\<forall>c\<in>set w. IsSpace c) \<and> f \<noteq> []
           \<and> (\<forall>c\<in>set f. \<not> IsSpace c) \<and> (rest = [] \<or> IsSpace (hd rest))
           \<and> Fields rest = fs \<and> (w = [] \<longrightarrow> s = [] \<or> \<not> IsSpace (hd s))"
proof (cases "dropWhile IsSpace s")
  case Nil
  then show ?thesis using assms Fields_unfold_Nil [of s] by simp
next
  case (Cons c cs)
  let ?w = "takeWhile IsSpace s"
  let ?r = "dropWhile (\<lambda>r. \<not> IsSpace r) cs"
  have f: "f = c # takeWhile (\<lambda>r. \<not> IsSpace r) cs" and fs: "fs = Fields ?r"
    using assms Fields_unfold_Cons [OF Cons] by simp_all
  have s: "s = ?w @ f @ ?r"
    using Cons f takeWhile_dropWhile_id [of IsSpace s] by simp
  have c: "\<not> IsSpace c" using Cons hd_dropWhile [of IsSpace s] by auto
  have fw: "\<forall>x\<in>set f. \<not> IsSpace x" using c f by (auto dest: set_takeWhileD)
  have rr: "?r = [] \<or> IsSpace (hd ?r)" using hd_dropWhile [of "\<lambda>r. \<not> IsSpace r" cs] by auto
  have w: "\<forall>c\<in>set ?w. IsSpace c" by (auto dest: set_takeWhileD)
  have e: "?w = [] \<longrightarrow> s = [] \<or> \<not> IsSpace (hd s)" by (cases s) auto
  have "s = ?w @ f @ ?r \<and> (\<forall>c\<in>set ?w. IsSpace c) \<and> f \<noteq> []
           \<and> (\<forall>c\<in>set f. \<not> IsSpace c) \<and> (?r = [] \<or> IsSpace (hd ?r))
           \<and> Fields ?r = fs \<and> (?w = [] \<longrightarrow> s = [] \<or> \<not> IsSpace (hd s))"
    using s w fw rr fs e f by simp
  then show ?thesis by blast
qed


lemma Fields_three_fields:
  assumes "three_fields line f1 f2 f3"
  shows "Fields line = [f1, f2, f3]"
proof -
  from assms obtain w0 w1 w2 w3 where
    l: "line = w0 @ f1 @ w1 @ f2 @ w2 @ f3 @ w3"
    and w0: "\<forall>c\<in>set w0. IsSpace c" and w1: "\<forall>c\<in>set w1. IsSpace c"
    and w2: "\<forall>c\<in>set w2. IsSpace c" and w3: "\<forall>c\<in>set w3. IsSpace c"
    and n1: "w1 \<noteq> []" and n2: "w2 \<noteq> []"
    and f1: "f1 \<noteq> []" "\<forall>c\<in>set f1. \<not> IsSpace c"
    and f2: "f2 \<noteq> []" "\<forall>c\<in>set f2. \<not> IsSpace c"
    and f3: "f3 \<noteq> []" "\<forall>c\<in>set f3. \<not> IsSpace c"
    unfolding three_fields_def list_all_iff by (elim exE conjE) 
  have h1: "w1 @ f2 @ w2 @ f3 @ w3 = [] \<or> IsSpace (hd (w1 @ f2 @ w2 @ f3 @ w3))"
    using n1 w1 by (cases w1) auto
  have h2: "w2 @ f3 @ w3 = [] \<or> IsSpace (hd (w2 @ f3 @ w3))"
    using n2 w2 by (cases w2) auto
  have h3: "w3 = [] \<or> IsSpace (hd w3)"
    using w3 by (cases w3) auto
  have "Fields line = Fields (f1 @ (w1 @ f2 @ w2 @ f3 @ w3))"
    unfolding l using w0 by (rule Fields_prepend_blank)
  also have "\<dots> = f1 # Fields (w1 @ (f2 @ w2 @ f3 @ w3))"
    using f1 h1 by (rule Fields_word)
  also have "Fields (w1 @ (f2 @ w2 @ f3 @ w3)) = Fields (f2 @ (w2 @ f3 @ w3))"
    using w1 by (rule Fields_prepend_blank)
  also have "\<dots> = f2 # Fields (w2 @ (f3 @ w3))"
    using f2 h2 by (rule Fields_word)
  also have "Fields (w2 @ (f3 @ w3)) = Fields (f3 @ w3)"
    using w2 by (rule Fields_prepend_blank)
  also have "\<dots> = f3 # Fields w3"
    using f3 h3 by (rule Fields_word)
  also have "Fields w3 = []"
    using w3 by (rule Fields_blank)
  finally show ?thesis .
qed

lemma three_fields_Fields:
  assumes "Fields line = [f1, f2, f3]"
  shows "three_fields line f1 f2 f3"
proof -
  from Fields_Cons_split [OF assms] obtain w0 r1 where
    l: "line = w0 @ f1 @ r1" and w0: "\<forall>c\<in>set w0. IsSpace c"
    and f1: "f1 \<noteq> []" "\<forall>c\<in>set f1. \<not> IsSpace c"
    and h1: "r1 = [] \<or> IsSpace (hd r1)" and r1: "Fields r1 = [f2, f3]"
    by blast
  from Fields_Cons_split [OF r1] obtain w1 r2 where
    l1: "r1 = w1 @ f2 @ r2" and w1: "\<forall>c\<in>set w1. IsSpace c"
    and f2: "f2 \<noteq> []" "\<forall>c\<in>set f2. \<not> IsSpace c"
    and h2: "r2 = [] \<or> IsSpace (hd r2)" and r2: "Fields r2 = [f3]"
    and e1: "w1 = [] \<longrightarrow> r1 = [] \<or> \<not> IsSpace (hd r1)"
    by blast
  from Fields_Cons_split [OF r2] obtain w2 w3 where
    l2: "r2 = w2 @ f3 @ w3" and w2: "\<forall>c\<in>set w2. IsSpace c"
    and f3: "f3 \<noteq> []" "\<forall>c\<in>set f3. \<not> IsSpace c"
    and r3: "Fields w3 = []"
    and e2: "w2 = [] \<longrightarrow> r2 = [] \<or> \<not> IsSpace (hd r2)"
    by blast
  have w3: "\<forall>c\<in>set w3. IsSpace c" using r3 by (rule Fields_Nil_blank)
  have "r1 \<noteq> []" using l1 f2 by simp
  then have n1: "w1 \<noteq> []" using e1 h1 by blast
  have "r2 \<noteq> []" using l2 f3 by simp
  then have n2: "w2 \<noteq> []" using e2 h2 by blast
  have "line = w0 @ f1 @ w1 @ f2 @ w2 @ f3 @ w3" using l l1 l2 by simp
  then have "line = w0 @ f1 @ w1 @ f2 @ w2 @ f3 @ w3
        \<and> list_all IsSpace w0 \<and> list_all IsSpace w1 \<and> list_all IsSpace w2 \<and> list_all IsSpace w3
        \<and> w1 \<noteq> [] \<and> w2 \<noteq> []
        \<and> f1 \<noteq> [] \<and> f2 \<noteq> [] \<and> f3 \<noteq> []
        \<and> list_all (\<lambda>r. \<not> IsSpace r) f1 \<and> list_all (\<lambda>r. \<not> IsSpace r) f2
        \<and> list_all (\<lambda>r. \<not> IsSpace r) f3"
    using w0 w1 w2 w3 n1 n2 f1 f2 f3 by (simp add: list_all_iff)
  then show ?thesis
    unfolding three_fields_def by (intro exI)
qed

lemma Split_newline_nonempty: "Split_newline s \<noteq> []"
  by (induction s) (auto split: list.splits)

lemma Split_newline_line: "10 \<notin> set line \<Longrightarrow> Split_newline line = [line]"
  by (induction line) auto

lemma Split_newline_first:
  "10 \<notin> set line \<Longrightarrow> Split_newline (line @ 10 # r) = line # Split_newline r"
  by (induction line) auto

lemma Split_newline_hd:
  assumes "output = line @ rest" and "10 \<notin> set line" and "rest = [] \<or> (\<exists>r. rest = 10 # r)"
  shows "\<exists>ls. Split_newline output = line # ls"
  using assms Split_newline_line Split_newline_first by auto

lemma status_distinct:
  "Pending \<noteq> Unknown" "Pending \<noteq> Success" "Pending \<noteq> Failed"
  "Unknown \<noteq> Success" "Unknown \<noteq> Failed" "Success \<noteq> Failed"
  by (simp_all add: Pending_def Unknown_def Success_def Failed_def str_def)

lemma getGitStatus_line:
  assumes "Split_newline output = line # ls"
  shows "getGitStatus (output, False) =
           (if length (Fields line) = 3 then (Fields line ! 1, Pending) else ([], Unknown))"
  using assms by (simp add: getGitStatus_def Fields_TrimSpace)

text \<open>
  Claim C2. Let \<open>line\<close> be the first line of the output of the remote-listing command (the
  text before its first newline). When the command fails, \<open>getGitStatus\<close> returns
  \<open>("", "Unknown")\<close>. When it succeeds and the line consists of exactly three
  whitespace-separated fields, \<open>getGitStatus\<close> returns the second field and \<open>"Pending"\<close>;
  when the line does not consist of three such fields (the empty output included), it
  returns \<open>("", "Unknown")\<close>.
\<close>

theorem getGitStatus_first_line:
  assumes "output = line @ rest" and "10 \<notin> set line" and "rest = [] \<or> (\<exists>r. rest = 10 # r)"
  shows "getGitStatus (output, True) = ([], Unknown)
       \<and> (\<forall>f1 f2 f3. three_fields line f1 f2 f3 \<longrightarrow> getGitStatus (output, False) = (f2, Pending))
       \<and> ((\<nexists>f1 f2 f3. three_fields line f1 f2 f3) \<longrightarrow> getGitStatus (output, False) = ([], Unknown))"
proof -
  from Split_newline_hd [OF assms] obtain ls where s: "Split_newline output = line # ls" ..
  have a: "getGitStatus (output, True) = ([], Unknown)"
    by (simp add: getGitStatus_def)
  have b: "getGitStatus (output, False) = (f2, Pending)" if "three_fields line f1 f2 f3" for f1 f2 f3
    using Fields_three_fields [OF that] getGitStatus_line [OF s] by simp
  have c: "getGitStatus (output, False) = ([], Unknown)" if n: "\<nexists>f1 f2 f3. three_fields line f1 f2 f3"
  proof (cases "length (Fields line) = 3")
    case True
    then obtain f1 f2 f3 where "Fields line = [f1, f2, f3]"
      by (auto simp: length_Suc_conv numeral_3_eq_3)
    then have "three_fields line f1 f2 f3" by (rule three_fields_Fields)
    then show ?thesis using n by blast
  next
    case False
    then show ?thesis using getGitStatus_line [OF s] by simp
  qed
  show ?thesis using a b c by blast
qed

theorem getGitStatus_first_line_witness:
  "getGitStatus (str ''origin'' @ [9] @ str ''git@host:r.git'' @ [32] @ str ''(fetch)'' @ [10] @ str ''origin'', False)
     = (str ''git@host:r.git'', Pending)
   \<and> getGitStatus ([], False) = ([], Unknown)
   \<and> getGitStatus (str ''origin'' @ [9] @ str ''git@host:r.git'' @ [32] @ str ''(fetch)'' @ [10] @ str ''origin'', True)
     = ([], Unknown)"
proof -
  let ?line = "str ''origin'' @ [9] @ str ''git@host:r.git'' @ [32] @ str ''(fetch)''"
  let ?rest = "[10] @ str ''origin''"
  have t: "three_fields ?line (str ''origin'') (str ''git@host:r.git'') (str ''(fetch)'')"
    unfolding three_fields_def
    by (rule exI [of _ "[]"], rule exI [of _ "[9]"], rule exI [of _ "[32]"], rule exI [of _ "[]"])
       (simp add: str_def IsSpace_def)
  have h: "?line @ ?rest = ?line @ ?rest" "10 \<notin> set ?line" "?rest = [] \<or> (\<exists>r. ?rest = 10 # r)"
    by (simp_all add: str_def)
  from getGitStatus_first_line [OF h] t
  have a: "getGitStatus (?line @ ?rest, True) = ([], Unknown)
         \<and> getGitStatus (?line @ ?rest, False) = (str ''git@host:r.git'', Pending)"
    by blast
  have n: "\<nexists>f1 f2 f3. three_fields [] f1 f2 f3" by (simp add: three_fields_def)
  have h': "[] = [] @ ([]::gostring)" "10 \<notin> set ([]::gostring)" "([]::gostring) = [] \<or> (\<exists>r. ([]::gostring) = 10 # r)"
    by simp_all
  from getGitStatus_first_line [OF h'] n
  have b: "getGitStatus ([], False) = ([], Unknown)" by blast
  show ?thesis using a b by simp
qed

lemma Fields_nonempty: "f \<in> set (Fields s) \<Longrightarrow> f \<noteq> [] \<and> (\<forall>c\<in>set f. \<not> IsSpace c)"
proof (induction s rule: Fields.induct)
  case (1 s)
  show ?case
  proof (cases "dropWhile IsSpace s")
    case Nil
    then have "Fields s = []" by (rule Fields_unfold_Nil)
    then show ?thesis using 1(2) by simp
  next
    case (Cons c cs)
    have c: "\<not> IsSpace c" using Cons hd_dropWhile [of IsSpace s] by auto
    have u: "Fields s = (c # takeWhile (\<lambda>r. \<not> IsSpace r) cs) # Fields (dropWhile (\<lambda>r. \<not> IsSpace r) cs)"
      using Cons by (rule Fields_unfold_Cons)
    have "f = c # takeWhile (\<lambda>r. \<not> IsSpace r) cs \<or> f \<in> set (Fields (dropWhile (\<lambda>r. \<not> IsSpace r) cs))"
      using 1(2) unfolding u by simp
    then show ?thesis
    proof
      assume "f = c # takeWhile (\<lambda>r. \<not> IsSpace r) cs"
      then show ?thesis using c by (auto dest: set_takeWhileD)
    next
      assume "f \<in> set (Fields (dropWhile (\<lambda>r. \<not> IsSpace r) cs))"
      then show ?thesis using Cons by (rule 1(1) [rotated])
    qed
  qed
qed

text \<open>
  Claim C9. Whenever \<open>getGitStatus\<close> returns the status \<open>"Pending"\<close>, the remote it returns
  is non-empty and free of white space: the command succeeded and the remote is the second
  of exactly three non-empty fields of the first line.
\<close>

theorem getGitStatus_Pending_remote:
  assumes "getGitStatus res = (remote, Pending)"
  shows "remote \<noteq> [] \<and> list_all (\<lambda>r. \<not> IsSpace r) remote
       \<and> (\<exists>line0 ls a c. \<not> snd res \<and> Split_newline (fst res) = line0 # ls
            \<and> Fields (TrimSpace line0) = [a, remote, c] \<and> a \<noteq> [] \<and> c \<noteq> [])"
proof -
  obtain out err where res: "res = (out, err)" by (cases res)
  have e: "\<not> err" using assms res status_distinct by (auto simp: getGitStatus_def)
  obtain line0 ls where s: "Split_newline out = line0 # ls"
    using Split_newline_nonempty [of out] by (cases "Split_newline out") auto
  have "length (Fields (TrimSpace line0)) = 3 \<and> remote = Fields (TrimSpace line0) ! 1"
    using assms res e s status_distinct by (auto simp: getGitStatus_def Let_def split: if_splits)
  then obtain a c where f: "Fields (TrimSpace line0) = [a, remote, c]"
    by (auto simp: length_Suc_conv numeral_3_eq_3)
  have "a \<in> set (Fields (TrimSpace line0))" "remote \<in> set (Fields (TrimSpace line0))"
    "c \<in> set (Fields (TrimSpace line0))" using f by simp_all
  then have "a \<noteq> []" "c \<noteq> []" "remote \<noteq> []" "\<forall>x\<in>set remote. \<not> IsSpace x"
    using Fields_nonempty by blast+
  then show ?thesis using res e s f by (auto simp: list_all_iff)
qed

theorem getGitStatus_Pending_remote_witness:
  "getGitStatus (str ''o u (push)'', False) = (str ''u'', Pending) \<and> str ''u'' \<noteq> []"
proof -
  have a: "getGitStatus (str ''o u (push)'', False) = (str ''u'', Pending)"
    by (simp add: getGitStatus_def str_def TrimSpace_def IsSpace_def Fields.simps)
  from getGitStatus_Pending_remote [OF a] show ?thesis using a by simp
qed

section \<open>Properties of the Result Aggregator\<close>

lemma all_less_Suc_split: "(\<forall>j<Suc i. P j) \<longleftrightarrow> P 0 \<and> (\<forall>j<i. P (Suc j))"
  by (auto simp: less_Suc_eq_0_disj)

lemma updateStatus_first_match:
  assumes "list_all (\<lambda>r. length r = 3) rows"
  shows "\<exists>rows'. updateStatus dir status rows = Inr rows'
      \<and> length rows' = length rows
      \<and> (\<forall>i<length rows.
           rows' ! i = (if rows ! i ! 0 = dir \<and> (\<forall>j<i. rows ! j ! 0 \<noteq> dir)
                           then [rows ! i ! 0, rows ! i ! 1, status] else rows ! i))"
  using assms
proof (induction rows)
  case Nil
  then show ?case by simp
next
  case (Cons r rest)
  from Cons.prems obtain p q s where r: "r = [p, q, s]"
    by (auto simp: length_Suc_conv numeral_3_eq_3)
  show ?case
  proof (cases "p = dir")
    case True
    have u: "updateStatus dir status (r # rest) = Inr ([p, q, status] # rest)"
      using True r by simp
    have "([p, q, status] # rest) ! i =
            (if (r # rest) ! i ! 0 = dir \<and> (\<forall>j<i. (r # rest) ! j ! 0 \<noteq> dir)
             then [(r # rest) ! i ! 0, (r # rest) ! i ! 1, status] else (r # rest) ! i)" for i
    proof (cases i)
      case 0
      then show ?thesis using True r by simp
    next
      case (Suc k)
      have "\<exists>j<Suc k. (r # rest) ! j ! 0 = dir"
        using True r by (intro exI [of _ 0]) simp
      then show ?thesis using Suc by auto
    qed
    then show ?thesis using u by simp
  next
    case False
    from Cons.prems have "list_all (\<lambda>r. length r = 3) rest" by simp
    from Cons.IH [OF this] obtain rest' where
      u: "updateStatus dir status rest = Inr rest'" and l: "length rest' = length rest"
      and n: "\<forall>i<length rest. rest' ! i =
                (if rest ! i ! 0 = dir \<and> (\<forall>j<i. rest ! j ! 0 \<noteq> dir)
                 then [rest ! i ! 0, rest ! i ! 1, status] else rest ! i)"
      by blast
    have u': "updateStatus dir status (r # rest) = Inr (r # rest')"
      using False r u by simp
    have "(r # rest') ! i =
            (if (r # rest) ! i ! 0 = dir \<and> (\<forall>j<i. (r # rest) ! j ! 0 \<noteq> dir)
             then [(r # rest) ! i ! 0, (r # rest) ! i ! 1, status] else (r # rest) ! i)"
      if "i < length (r # rest)" for i
    proof (cases i)
      case 0
      then show ?thesis using False r by simp
    next
      case (Suc k)
      then have k: "k < length rest" using that by simp
      have e: "(\<forall>j<Suc k. (r # rest) ! j ! 0 \<noteq> dir) \<longleftrightarrow> (\<forall>j<k. rest ! j ! 0 \<noteq> dir)"
        using False r by (simp add: all_less_Suc_split)
      have "rest' ! k = (if rest ! k ! 0 = dir \<and> (\<forall>j<k. rest ! j ! 0 \<noteq> dir)
                 then [rest ! k ! 0, rest ! k ! 1, status] else rest ! k)"
        using n k by blast
      then show ?thesis unfolding Suc e by auto
    qed
    then show ?thesis using u' l by simp
  qed
qed

lemma updateStatus_no_match:
  "list_all (\<lambda>r. length r = 3) rows \<Longrightarrow> \<forall>r\<in>set rows. r ! 0 \<noteq> dir \<Longrightarrow>
   updateStatus dir status rows = Inr rows"
proof (induction rows)
  case Nil
  then show ?case by simp
next
  case (Cons r rest)
  from Cons.prems obtain p q s where r: "r = [p, q, s]"
    by (auto simp: length_Suc_conv numeral_3_eq_3)
  then show ?case using Cons by simp
qed

text \<open>
  Claim C6. On a collection whose rows all have the three elements path, remote and status,
  \<open>updateStatus dir status\<close> returns normally with a collection of the same length, in which
  the first row whose path is \<open>dir\<close> keeps its path and its remote and has the status
  \<open>status\<close>, and every other row is unchanged; when no row has the path \<open>dir\<close>, the
  collection is returned unchanged.
\<close>

theorem updateStatus_frame:
  assumes "list_all (\<lambda>r. length r = 3) rows"
  shows "\<exists>rows'. updateStatus dir status rows = Inr rows'
      \<and> length rows' = length rows
      \<and> (\<forall>i<length rows.
           rows' ! i = (if rows ! i ! 0 = dir \<and> (\<forall>j<i. rows ! j ! 0 \<noteq> dir)
                           then [rows ! i ! 0, rows ! i ! 1, status] else rows ! i))
      \<and> ((\<forall>r\<in>set rows. r ! 0 \<noteq> dir) \<longrightarrow> rows' = rows)"
proof -
  from updateStatus_first_match [OF assms, of dir status] obtain rows' where
    a: "updateStatus dir status rows = Inr rows'" "length rows' = length rows"
    "\<forall>i<length rows.
           rows' ! i = (if rows ! i ! 0 = dir \<and> (\<forall>j<i. rows ! j ! 0 \<noteq> dir)
                           then [rows ! i ! 0, rows ! i ! 1, status] else rows ! i)"
    by blast
  have "rows' = rows" if "\<forall>r\<in>set rows. r ! 0 \<noteq> dir"
    using updateStatus_no_match [OF assms that, of status] a(1) by simp
  then show ?thesis using a by blast
qed

theorem updateStatus_frame_witness:
  "updateStatus (str ''b'') Failed
     [[str ''a'', str ''u'', Pending], [str ''b'', str ''v'', Pending], [str ''b'', str ''w'', Unknown]]
   = Inr [[str ''a'', str ''u'', Pending], [str ''b'', str ''v'', Failed], [str ''b'', str ''w'', Unknown]]
   \<and> updateStatus (str ''c'') Failed [[str ''a'', str ''u'', Pending]] = Inr [[str ''a'', str ''u'', Pending]]"
proof -
  let ?s = "[[str ''a'', str ''u'', Pending], [str ''b'', str ''v'', Pending], [str ''b'', str ''w'', Unknown]]"
  have wf: "list_all (\<lambda>r. length r = 3) ?s" by simp
  from updateStatus_frame [OF wf, of "str ''b''" Failed] obtain s' where
    u: "updateStatus (str ''b'') Failed ?s = Inr s'" and l: "length s' = 3"
    and n: "\<forall>i<3. s' ! i = (if ?s ! i ! 0 = str ''b'' \<and> (\<forall>j<i. ?s ! j ! 0 \<noteq> str ''b'')
                           then [?s ! i ! 0, ?s ! i ! 1, Failed] else ?s ! i)"
    by auto
  have "s' ! 0 = ?s ! 0" using n by (simp add: str_def)
  moreover have "s' ! 1 = [str ''b'', str ''v'', Failed]"
    using n [rule_format, of 1] by (simp add: str_def)
  moreover have "s' ! 2 = ?s ! 2"
  proof -
    have "\<exists>j<2. ?s ! j ! 0 = str ''b''" by (intro exI [of _ 1]) simp
    then show ?thesis using n [rule_format, of 2] by auto
  qed
  ultimately have "s' = [[str ''a'', str ''u'', Pending], [str ''b'', str ''v'', Failed], [str ''b'', str ''w'', Unknown]]"
    using l by (auto simp: length_Suc_conv numeral_3_eq_3)
  then have a: "updateStatus (str ''b'') Failed ?s = Inr [[str ''a'', str ''u'', Pending], [str ''b'', str ''v'', Failed], [str ''b'', str ''w'', Unknown]]"
    using u by simp
  have wf2: "list_all (\<lambda>r. length r = 3) [[str ''a'', str ''u'', Pending]]" by simp
  from updateStatus_frame [OF wf2, of "str ''c''" Failed]
  have b: "updateStatus (str ''c'') Failed [[str ''a'', str ''u'', Pending]] = Inr [[str ''a'', str ''u'', Pending]]"
    by (auto simp: str_def)
  show ?thesis using a b by simp
qed

section \<open>Properties of the Tree Walker\<close>

text \<open>
  \<open>filepath.Clean\<close>, \<open>filepath.Join\<close> and \<open>filepath.Dir\<close> on the paths of a walk: joining a
  name to the path of a directory gives \<open>below\<close> of the root and the names walked so far,
  \<open>filepath.Dir\<close> takes the last name away again, different lists of names give different
  paths, and no path below the root is the root as it is written.
\<close>

lemma named_simps [simp]:
  "\<not> named []" "\<not> named (str ''.'')" "\<not> named (str ''..'')"
  by (simp_all add: named_def)

lemma named_git: "named (str ''.git'')"
  by (simp add: named_def str_def)

lemma clean_skip:
  "x = [] \<or> x = str ''.'' \<Longrightarrow> clean_elems r out (x # xs) = clean_elems r out xs"
  by auto

lemma clean_elems_named: "named x \<Longrightarrow> clean_elems r out (x # xs) = clean_elems r (out @ [x]) xs"
  by (auto simp: named_def)

lemma clean_pop:
  "out \<noteq> [] \<Longrightarrow> last out \<noteq> str ''..'' \<Longrightarrow>
   clean_elems r out (str ''..'' # xs) = clean_elems r (butlast out) xs"
  by (simp add: str_def)

lemma clean_drop:
  "out = [] \<or> last out = str ''..'' \<Longrightarrow>
   clean_elems True out (str ''..'' # xs) = clean_elems True out xs"
  by (auto simp: str_def)

lemma clean_keep:
  "out = [] \<or> last out = str ''..'' \<Longrightarrow>
   clean_elems False out (str ''..'' # xs) = clean_elems False (out @ [str ''..'']) xs"
  by (auto simp: str_def)

lemma clean_cases:
  "clean_elems r out (x # xs) = clean_elems r out xs
   \<or> clean_elems r out (x # xs) = clean_elems r (out @ [x]) xs
   \<or> clean_elems r out (x # xs) = clean_elems r (butlast out) xs"
  by simp

declare clean_elems.simps(2) [simp del]

lemma clean_elems_append:
  "clean_elems r acc (xs @ ys) = clean_elems r (clean_elems r acc xs) ys"
proof (induction xs arbitrary: acc)
  case Nil
  then show ?case by simp
next
  case (Cons x xs)
  from clean_cases [of r acc x xs] show ?case
    using Cons.IH clean_elems.simps(2) [of r acc x "xs @ ys"] clean_elems.simps(2) [of r acc x xs]
    by (auto split: if_splits)
qed

lemma canon_Nil: "canon r []"
  unfolding canon_def by (intro exI [of _ 0] exI [of _ "[]"]) simp

lemma canon_elem:
  assumes "canon r out" and "x \<in> set out"
  shows "x = str ''..'' \<or> named x"
  using assms by (auto simp: canon_def list_all_iff)

lemma canon_rooted: "canon True out \<Longrightarrow> list_all named out"
  by (auto simp: canon_def)

lemma canon_push:
  assumes "canon r out" and "named x"
  shows "canon r (out @ [x])"
proof -
  from assms(1) obtain k pl where o: "out = replicate k (str ''..'') @ pl" "list_all named pl" "r \<longrightarrow> k = 0"
    unfolding canon_def by blast
  have "out @ [x] = replicate k (str ''..'') @ (pl @ [x]) \<and> list_all named (pl @ [x]) \<and> (r \<longrightarrow> k = 0)"
    using o assms(2) by simp
  then show ?thesis unfolding canon_def by blast
qed

lemma canon_append:
  "canon r out \<Longrightarrow> list_all named ns \<Longrightarrow> canon r (out @ ns)"
proof (induction ns arbitrary: out)
  case Nil
  then show ?case by simp
next
  case (Cons n ns)
  from Cons.prems have "canon r (out @ [n])" by (simp add: canon_push)
  from Cons.IH [OF this] Cons.prems(2) show ?case by simp
qed

lemma canon_dots:
  assumes "canon r out" and "out = [] \<or> last out = str ''..''"
  shows "out = replicate (length out) (str ''..'')"
proof -
  from assms(1) obtain k pl where o: "out = replicate k (str ''..'') @ pl" "list_all named pl" "r \<longrightarrow> k = 0"
    unfolding canon_def by blast
  have "pl = []"
  proof (rule ccontr)
    assume n: "pl \<noteq> []"
    then have "last out = last pl" using o(1) by simp
    moreover have "named (last pl)" using n o(2) by (simp add: list_all_iff)
    ultimately show False using assms(2) n o(1) by auto
  qed
  then show ?thesis using o(1) by simp
qed

lemma canon_push_dots:
  assumes "canon False out" and "out = [] \<or> last out = str ''..''"
  shows "canon False (out @ [str ''..''])"
proof -
  define n where "n = length out"
  have "out = replicate n (str ''..'')" using canon_dots [OF assms] n_def by simp
  then have "out @ [str ''..''] = replicate (Suc (length out)) (str ''..'') @ []"
    by (simp add: replicate_append_same)
  then show ?thesis unfolding canon_def by (intro exI [of _ "Suc (length out)"] exI [of _ "[]"]) simp
qed

lemma canon_pop:
  assumes "canon r out" and "out \<noteq> []" and "last out \<noteq> str ''..''"
  shows "canon r (butlast out)"
proof -
  from assms(1) obtain k pl where o: "out = replicate k (str ''..'') @ pl" "list_all named pl" "r \<longrightarrow> k = 0"
    unfolding canon_def by blast
  have "pl \<noteq> []"
  proof
    assume "pl = []"
    then have "out = replicate k (str ''..'')" using o(1) by simp
    then show False using assms(2,3) by (cases k) (auto split: if_splits)
  qed
  then have "butlast out = replicate k (str ''..'') @ butlast pl \<and> list_all named (butlast pl) \<and> (r \<longrightarrow> k = 0)"
    using o by (auto simp: butlast_append list_all_iff dest: in_set_butlastD)
  then show ?thesis unfolding canon_def by blast
qed

lemma canon_clean_elems: "canon r acc \<Longrightarrow> canon r (clean_elems r acc xs)"
proof (induction xs arbitrary: acc)
  case Nil
  then show ?case by simp
next
  case (Cons x xs)
  show ?case
  proof (cases "x = [] \<or> x = str ''.''")
    case True
    then show ?thesis using Cons by (simp add: clean_skip)
  next
    case skip: False
    show ?thesis
    proof (cases "x = str ''..''")
      case False
      then have "named x" using skip by (simp add: named_def)
      then show ?thesis using Cons canon_push [of r acc x] by (simp add: clean_elems_named)
    next
      case True
      show ?thesis
      proof (cases "acc \<noteq> [] \<and> last acc \<noteq> str ''..''")
        case pop: True
        then have "canon r (butlast acc)" using Cons.prems canon_pop by blast
        from Cons.IH [OF this] show ?thesis using True pop by (simp add: clean_pop)
      next
        case nopop: False
        then have np: "acc = [] \<or> last acc = str ''..''" by blast
        show ?thesis
        proof (cases r)
          case True
          then show ?thesis using Cons \<open>x = str ''..''\<close> clean_drop [OF np] by simp
        next
          case False
          then have "canon False (acc @ [str ''..''])"
            using canon_push_dots [of acc] Cons.prems np by simp
          then have "canon False (clean_elems False (acc @ [str ''..'']) xs)"
            using Cons.IH [of "acc @ [str ''..'']"] False by simp
          then show ?thesis using False \<open>x = str ''..''\<close> clean_keep [OF np] by simp
        qed
      qed
    qed
  qed
qed

lemma canon_dd_prefix:
  "canon r (acc @ str ''..'' # xs) \<Longrightarrow> \<not> r \<and> (acc = [] \<or> last acc = str ''..'')"
proof (induction acc)
  case Nil
  then obtain k pl where o: "str ''..'' # xs = replicate k (str ''..'') @ pl" "list_all named pl" "r \<longrightarrow> k = 0"
    unfolding canon_def by auto
  have "k \<noteq> 0"
  proof
    assume "k = 0"
    then have "pl = str ''..'' # xs" using o(1) by simp
    then show False using o(2) by simp
  qed
  then show ?case using o(3) by simp
next
  case (Cons a acc)
  then obtain k pl where o: "a # acc @ str ''..'' # xs = replicate k (str ''..'') @ pl"
    "list_all named pl" "r \<longrightarrow> k = 0"
    unfolding canon_def by auto
  have k: "k \<noteq> 0"
  proof
    assume "k = 0"
    then have "pl = a # acc @ str ''..'' # xs" using o(1) by simp
    then have "str ''..'' \<in> set pl" by simp
    then show False using o(2) by (auto simp: list_all_iff)
  qed
  then obtain k' where k': "k = Suc k'" by (cases k) auto
  then have a: "a = str ''..''" and t: "acc @ str ''..'' # xs = replicate k' (str ''..'') @ pl"
    using o(1) by simp_all
  have nr: "\<not> r" using o(3) k by simp
  have "canon r (acc @ str ''..'' # xs)"
    unfolding canon_def using t o(2) nr by blast
  from Cons.IH [OF this] a nr show ?case by (cases acc) auto
qed

lemma clean_fix: "canon r (acc @ xs) \<Longrightarrow> clean_elems r acc xs = acc @ xs"
proof (induction xs arbitrary: acc)
  case Nil
  then show ?case by simp
next
  case (Cons x xs)
  from canon_elem [OF Cons.prems, of x] have x: "x = str ''..'' \<or> named x" by simp
  have c: "canon r ((acc @ [x]) @ xs)" using Cons.prems by simp
  show ?case
  proof (cases "named x")
    case True
    then show ?thesis using Cons.IH [OF c] by (simp add: clean_elems_named)
  next
    case False
    then have d: "x = str ''..''" using x by simp
    from canon_dd_prefix [of r acc xs] Cons.prems d
    have nr: "\<not> r" and np: "acc = [] \<or> last acc = str ''..''" by simp_all
    have "clean_elems r acc (x # xs) = clean_elems r (acc @ [x]) xs"
      using d nr clean_keep [OF np] by simp
    then show ?thesis using Cons.IH [OF c] by simp
  qed
qed

lemma canon_out: "canon (is_rooted p) (clean_elems (is_rooted p) [] p)"
  by (rule canon_clean_elems) (rule canon_Nil)

lemma canon_hd: "canon r out \<Longrightarrow> out \<noteq> [] \<Longrightarrow> hd out \<noteq> []"
  using canon_elem [of r out "hd out"] by (auto simp: str_def)

lemma is_rooted_form:
  assumes "canon r out"
  shows "is_rooted (rooted_form r out @ xs) = r"
proof (cases r)
  case True
  then show ?thesis by (simp add: rooted_form_def is_rooted_def)
next
  case False
  show ?thesis
  proof (cases "out = []")
    case True
    then show ?thesis using False by (simp add: rooted_form_def is_rooted_def str_def)
  next
    case ne: False
    then obtain a as where o: "out = a # as" by (cases out) auto
    then have "a \<noteq> []" using canon_hd [OF assms ne] by simp
    then show ?thesis using False o by (simp add: rooted_form_def is_rooted_def)
  qed
qed

lemma clean_elems_form:
  assumes "canon r out"
  shows "clean_elems r [] (rooted_form r out @ xs) = clean_elems r out xs"
proof -
  have "clean_elems r [] (rooted_form r out) = out"
  proof (cases "out = []")
    case True
    then show ?thesis by (cases r) (simp_all add: rooted_form_def clean_skip)
  next
    case False
    have f: "clean_elems r [] out = out" using clean_fix [of r "[]" out] assms by simp
    show ?thesis
    proof (cases r)
      case True
      then have "rooted_form r out = [] # out" using False by (simp add: rooted_form_def)
      then show ?thesis using f by (simp add: clean_skip)
    next
      case nr: False
      then have "rooted_form r out = out" using False by (simp add: rooted_form_def)
      then show ?thesis using f by simp
    qed
  qed
  then show ?thesis by (simp add: clean_elems_append)
qed

lemma Clean_form_append:
  assumes "canon r out"
  shows "Clean (rooted_form r out @ xs) = rooted_form r (clean_elems r out xs)"
  unfolding Clean_def is_rooted_form [OF assms] clean_elems_form [OF assms] ..

lemma canon_no_empty:
  assumes "canon r out"
  shows "[] \<notin> set out" and "str ''.'' \<notin> set out"
proof -
  have d: "[] \<noteq> str ''..''" "str ''.'' \<noteq> str ''..''" by (simp_all add: str_def)
  show "[] \<notin> set out"
  proof
    assume "[] \<in> set out"
    from canon_elem [OF assms this] show False using d by simp
  qed
  show "str ''.'' \<notin> set out"
  proof
    assume "str ''.'' \<in> set out"
    from canon_elem [OF assms this] show False using d by simp
  qed
qed

lemma rooted_form_inj:
  assumes "canon r x" and "canon r y" and "rooted_form r x = rooted_form r y"
  shows "x = y"
proof -
  have e: "[] \<notin> set x" "[] \<notin> set y" "str ''.'' \<notin> set x" "str ''.'' \<notin> set y"
    using canon_no_empty [OF assms(1)] canon_no_empty [OF assms(2)] by blast+
  show ?thesis
  proof (cases r)
    case True
    then have "(if x = [] then [[]] else x) = (if y = [] then [[]] else y)"
      using assms(3) by (simp add: rooted_form_def)
    then show ?thesis using e by (auto split: if_splits)
  next
    case False
    then have "(if x = [] then [str ''.''] else x) = (if y = [] then [str ''.''] else y)"
      using assms(3) by (simp add: rooted_form_def)
    then show ?thesis using e by (auto split: if_splits)
  qed
qed

lemma canon_below: "list_all named ns \<Longrightarrow> canon (is_rooted p) (clean_elems (is_rooted p) [] p @ ns)"
  using canon_append [OF canon_out] by blast

lemma below_Nil: "below p [] = Clean p"
  by (simp add: below_def Clean_def)

lemma below_inj:
  assumes "list_all named ns" and "list_all named ms" and "below p ns = below p ms"
  shows "ns = ms"
  using rooted_form_inj [OF canon_below [OF assms(1)] canon_below [OF assms(2)]] assms(3)
  by (simp add: below_def)

lemma rooted_form_not_trivial:
  assumes "canon r out"
  shows "rooted_form r out \<noteq> []" and "rooted_form r out \<noteq> [[]]"
proof -
  show "rooted_form r out \<noteq> []" by (simp add: rooted_form_def)
  show "rooted_form r out \<noteq> [[]]"
  proof (cases r)
    case True
    then show ?thesis by (simp add: rooted_form_def)
  next
    case False
    show ?thesis
    proof (cases "out = []")
      case True
      then show ?thesis using False by (simp add: rooted_form_def str_def)
    next
      case ne: False
      then obtain a as where o: "out = a # as" by (cases out) auto
      then have "a \<noteq> []" using canon_hd [OF assms ne] by simp
      then show ?thesis using False o by (simp add: rooted_form_def)
    qed
  qed
qed

lemma below_not_trivial:
  assumes "list_all named ns"
  shows "below p ns \<noteq> []" and "below p ns \<noteq> [[]]"
  unfolding below_def using rooted_form_not_trivial [OF canon_below [OF assms]] by blast+

lemma Clean_below:
  assumes "list_all named ns"
  shows "Clean (below p ns @ xs)
           = rooted_form (is_rooted p) (clean_elems (is_rooted p) (clean_elems (is_rooted p) [] p @ ns) xs)"
  unfolding below_def using canon_below [OF assms] by (rule Clean_form_append)

lemma Join_below:
  assumes "list_all named ns" and "named n"
  shows "filepath_Join (below p ns) n = below p (ns @ [n])"
proof -
  have "filepath_Join (below p ns) n = Clean (below p ns @ [n])"
    using below_not_trivial [OF assms(1)] by (simp add: filepath_Join_def)
  also have "\<dots> = below p (ns @ [n])"
    using Clean_below [OF assms(1), of p "[n]"] assms(2) by (simp add: below_def clean_elems_named)
  finally show ?thesis .
qed

lemma is_rooted_snoc: "p \<noteq> [] \<Longrightarrow> p \<noteq> [[]] \<Longrightarrow> is_rooted (p @ [n]) = is_rooted p"
  by (cases p) (auto simp: is_rooted_def)

lemma Join_typed:
  assumes "named n"
  shows "filepath_Join p n = below p [n]"
proof (cases "p = [] \<or> p = [[]]")
  case True
  then have r: "is_rooted p = False" and o: "clean_elems False [] p = []"
    by (auto simp: is_rooted_def clean_skip)
  have "filepath_Join p n = Clean [n]" using True assms by (auto simp: filepath_Join_def)
  also have "\<dots> = [n]" using assms by (simp add: Clean_def is_rooted_def rooted_form_def clean_elems_named)
  also have "\<dots> = below p [n]" using r o by (simp add: below_def rooted_form_def)
  finally show ?thesis .
next
  case False
  then have "filepath_Join p n = Clean (p @ [n])" by (simp add: filepath_Join_def)
  also have "\<dots> = below p [n]"
    using False assms by (simp add: Clean_def below_def is_rooted_snoc clean_elems_append clean_elems_named)
  finally show ?thesis .
qed

lemma Dir_form:
  assumes "canon r out" and "named n"
  shows "filepath_Dir (rooted_form r (out @ [n])) = rooted_form r out"
proof -
  have f: "clean_elems r [] out = out" using clean_fix [of r "[]" out] assms(1) by simp
  show ?thesis
  proof (cases r)
    case True
    have "butlast (rooted_form r (out @ [n])) @ [[]] = [] # out @ [[]]"
      using True by (simp add: rooted_form_def butlast_append)
    moreover have "is_rooted ([] # out @ [[]])" by (simp add: is_rooted_def)
    moreover have "clean_elems True [] ([] # out @ [[]]) = out"
      using f True by (simp add: clean_elems_append clean_skip)
    ultimately show ?thesis using True by (simp add: filepath_Dir_def Clean_def)
  next
    case False
    have b: "butlast (rooted_form r (out @ [n])) @ [[]] = out @ [[]]"
      using False by (simp add: rooted_form_def butlast_append)
    have "\<not> is_rooted (out @ [[]])"
    proof (cases "out = []")
      case True
      then show ?thesis by (simp add: is_rooted_def)
    next
      case ne: False
      then show ?thesis using canon_hd [OF assms(1) ne] by (cases out) (auto simp: is_rooted_def)
    qed
    moreover have "clean_elems False [] (out @ [[]]) = out"
      using f False by (simp add: clean_elems_append clean_skip)
    ultimately show ?thesis using False b by (simp add: filepath_Dir_def Clean_def)
  qed
qed

lemma Dir_below:
  assumes "list_all named ns" and "named n"
  shows "filepath_Dir (below p (ns @ [n])) = below p ns"
  using Dir_form [OF canon_below [OF assms(1)] assms(2), of p] by (simp add: below_def)

lemma typed_not_below:
  assumes "list_all named ns" and "ns \<noteq> []"
  shows "p \<noteq> below p ns"
proof
  assume e: "p = below p ns"
  have c: "Clean (below p ns) = below p ns"
    using Clean_below [OF assms(1), of p "[]"] by (simp add: below_def)
  have "Clean p = Clean (below p ns)" by (rule arg_cong [OF e])
  also have "\<dots> = below p ns" by (rule c)
  finally have "below p [] = below p ns" by (simp only: below_Nil)
  moreover have "list_all named ([]::path)" by simp
  ultimately have "[] = ns" using assms(1) below_inj by blast
  then show False using assms(2) by simp
qed

text \<open>The entries of a tree and their paths.\<close>

lemma visit_err: "visit p info True st = (ErrNil, st)"
  by (simp add: visit_def)

lemma visit_info:
  "visit p (Some \<lparr>Name = n, IsDir = d\<rparr>) False st =
     (if d \<and> n = str ''.git'' then (SkipDir, st @ [filepath_Dir p]) else (ErrNil, st))"
  by (simp add: visit_def)

lemma rename_simps [simp]:
  "name_of (rename m t) = m" "is_dir (rename m t) = is_dir t" "is_NoStat (rename m t) = is_NoStat t"
  "entry_names (rename m t) = entry_names t" "distinct_names (rename m t) = distinct_names t"
  by (cases t; simp)+

lemma entry_name_named: "entry_name n \<Longrightarrow> named n"
  by (simp add: entry_name_def)

lemma entry_names_kid:
  "entry_names_in kids \<Longrightarrow> k \<in> set kids \<Longrightarrow> named (name_of k) \<and> entry_names k"
  by (induction kids) (auto simp: entry_name_named)

lemma distinct_names_kid: "distinct_names_in kids \<Longrightarrow> k \<in> set kids \<Longrightarrow> distinct_names k"
  by (induction kids) auto

lemma walked_root: "walked root [] root"
  by (simp add: walked_def)

lemma walked_join:
  assumes "walked root ms pp" and "named n"
  shows "filepath_Join pp n = below root (ms @ [n])" and "walked root (ms @ [n]) (filepath_Join pp n)"
proof -
  from assms(1) have ms: "list_all named ms" and c: "(ms = [] \<and> pp = root) \<or> pp = below root ms"
    by (simp_all add: walked_def)
  from c show j: "filepath_Join pp n = below root (ms @ [n])"
  proof
    assume "ms = [] \<and> pp = root"
    then show ?thesis using Join_typed [OF assms(2), of root] by simp
  next
    assume "pp = below root ms"
    then show ?thesis using Join_below [OF ms assms(2), of root] by simp
  qed
  show "walked root (ms @ [n]) (filepath_Join pp n)"
    using j ms assms(2) by (simp add: walked_def)
qed

lemma walked_not_below:
  assumes "walked root ms pp" and "list_all named ns" and "ns \<noteq> []"
  shows "pp \<noteq> below root (ms @ ns)"
proof -
  from assms(1) have ms: "list_all named ms" and c: "(ms = [] \<and> pp = root) \<or> pp = below root ms"
    by (simp_all add: walked_def)
  from c show ?thesis
  proof
    assume "ms = [] \<and> pp = root"
    then show ?thesis using typed_not_below [OF assms(2,3), of root] by simp
  next
    assume e: "pp = below root ms"
    show ?thesis
    proof
      assume "pp = below root (ms @ ns)"
      then have "below root ms = below root (ms @ ns)" using e by simp
      moreover have "list_all named (ms @ ns)" using ms assms(2) by simp
      ultimately have "ms = ms @ ns" using ms below_inj by blast
      then show False using assms(3) by simp
    qed
  qed
qed

lemma entries_in_mem:
  "(q, e) \<in> set (entries_in p ks) \<longleftrightarrow>
     (\<exists>k\<in>set ks. (q, e) \<in> set (entries (filepath_Join p (name_of k)) k))"
  by (induction ks) auto

lemma entries_path:
  "walked root ms pp \<Longrightarrow> entry_names t \<Longrightarrow> (q, e) \<in> set (entries pp t) \<Longrightarrow>
     (q = pp \<and> e = t)
     \<or> (\<exists>ns. ns \<noteq> [] \<and> list_all named ns \<and> q = below root (ms @ ns) \<and> last ns = name_of e)"
proof (induction t arbitrary: ms pp q e)
  case (Folder n kids)
  show ?case
  proof (cases "(q, e) = (pp, Folder n kids)")
    case True
    then show ?thesis by simp
  next
    case False
    then have "(q, e) \<in> set (entries_in pp kids)" using Folder.prems by auto
    then obtain k where k: "k \<in> set kids" "(q, e) \<in> set (entries (filepath_Join pp (name_of k)) k)"
      unfolding entries_in_mem by blast
    from entry_names_kid [OF _ k(1)] Folder.prems(2)
    have nk: "named (name_of k)" and ek: "entry_names k" by simp_all
    let ?cp = "filepath_Join pp (name_of k)"
    from walked_join [OF Folder.prems(1) nk]
    have cp: "?cp = below root (ms @ [name_of k])" and w: "walked root (ms @ [name_of k]) ?cp" .
    from Folder.IH [OF k(1) w ek k(2)]
    have "(q = ?cp \<and> e = k)
          \<or> (\<exists>ns. ns \<noteq> [] \<and> list_all named ns \<and> q = below root ((ms @ [name_of k]) @ ns)
                  \<and> last ns = name_of e)" .
    then show ?thesis
    proof
      assume "q = ?cp \<and> e = k"
      then have "[name_of k] \<noteq> [] \<and> list_all named [name_of k] \<and> q = below root (ms @ [name_of k])
                 \<and> last [name_of k] = name_of e"
        using cp nk by simp
      then show ?thesis by blast
    next
      assume "\<exists>ns. ns \<noteq> [] \<and> list_all named ns \<and> q = below root ((ms @ [name_of k]) @ ns)
                  \<and> last ns = name_of e"
      then obtain ns where ns: "ns \<noteq> []" "list_all named ns" "q = below root ((ms @ [name_of k]) @ ns)"
        "last ns = name_of e" by blast
      then have "name_of k # ns \<noteq> [] \<and> list_all named (name_of k # ns)
                 \<and> q = below root (ms @ name_of k # ns) \<and> last (name_of k # ns) = name_of e"
        using nk by simp
      then show ?thesis by blast
    qed
  qed
qed simp_all

lemma entries_child:
  assumes "walked root ms pp" and "named (name_of k)" and "entry_names k"
    and "(q, e) \<in> set (entries (filepath_Join pp (name_of k)) k)"
  shows "\<exists>ns. list_all named ns \<and> q = below root (ms @ name_of k # ns)
              \<and> last (name_of k # ns) = name_of e \<and> (ns = [] \<longrightarrow> e = k)"
proof -
  from walked_join [OF assms(1,2)]
  have cp: "filepath_Join pp (name_of k) = below root (ms @ [name_of k])"
    and w: "walked root (ms @ [name_of k]) (filepath_Join pp (name_of k))" .
  from entries_path [OF w assms(3,4)]
  show ?thesis
  proof
    assume "q = filepath_Join pp (name_of k) \<and> e = k"
    then have "list_all named [] \<and> q = below root (ms @ name_of k # [])
              \<and> last (name_of k # []) = name_of e \<and> (([]::path) = [] \<longrightarrow> e = k)"
      using cp by simp
    then show ?thesis by blast
  next
    assume "\<exists>ns. ns \<noteq> [] \<and> list_all named ns \<and> q = below root ((ms @ [name_of k]) @ ns)
                  \<and> last ns = name_of e"
    then obtain ns where ns: "ns \<noteq> []" "list_all named ns" "q = below root ((ms @ [name_of k]) @ ns)"
        "last ns = name_of e" by blast
    then have "list_all named ns \<and> q = below root (ms @ name_of k # ns)
              \<and> last (name_of k # ns) = name_of e \<and> (ns = [] \<longrightarrow> e = k)"
      by simp
    then show ?thesis by blast
  qed
qed

lemma entries_unique:
  "walked root ms pp \<Longrightarrow> entry_names t \<Longrightarrow> distinct_names t \<Longrightarrow>
   (q, e1) \<in> set (entries pp t) \<Longrightarrow> (q, e2) \<in> set (entries pp t) \<Longrightarrow> e1 = e2"
proof (induction t arbitrary: ms pp q e1 e2)
  case (Folder n kids)
  have kid: "\<exists>k ns. k \<in> set kids \<and> (q, e) \<in> set (entries (filepath_Join pp (name_of k)) k)
               \<and> list_all named ns \<and> q = below root (ms @ name_of k # ns)"
    if "(q, e) \<in> set (entries_in pp kids)" for e
  proof -
    from that obtain k where k: "k \<in> set kids" "(q, e) \<in> set (entries (filepath_Join pp (name_of k)) k)"
      unfolding entries_in_mem by blast
    from entry_names_kid [OF _ k(1)] Folder.prems(2)
    have nk: "named (name_of k)" and ek: "entry_names k" by simp_all
    from entries_child [OF Folder.prems(1) nk ek k(2)] k show ?thesis by blast
  qed
  have below': "q \<noteq> pp" if "(q, e) \<in> set (entries_in pp kids)" for e
  proof -
    from kid [OF that] obtain k ns where k: "k \<in> set kids" "list_all named ns"
      "q = below root (ms @ name_of k # ns)" by blast
    have "named (name_of k)" using entry_names_kid [OF _ k(1)] Folder.prems(2) by simp
    then have "list_all named (name_of k # ns)" using k(2) by simp
    from walked_not_below [OF Folder.prems(1) this] k(3) show ?thesis by simp
  qed
  show ?case
  proof (cases "q = pp")
    case True
    then show ?thesis using Folder.prems(4,5) below' by auto
  next
    case False
    then have m: "(q, e1) \<in> set (entries_in pp kids)" "(q, e2) \<in> set (entries_in pp kids)"
      using Folder.prems(4,5) by auto
    from kid [OF m(1)] obtain k1 ns1 where k1: "k1 \<in> set kids"
      "(q, e1) \<in> set (entries (filepath_Join pp (name_of k1)) k1)"
      "list_all named ns1" "q = below root (ms @ name_of k1 # ns1)" by blast
    from kid [OF m(2)] obtain k2 ns2 where k2: "k2 \<in> set kids"
      "(q, e2) \<in> set (entries (filepath_Join pp (name_of k2)) k2)"
      "list_all named ns2" "q = below root (ms @ name_of k2 # ns2)" by blast
    have ms: "list_all named ms" using Folder.prems(1) by (simp add: walked_def)
    have n1: "named (name_of k1)" and e1: "entry_names k1"
      using entry_names_kid [OF _ k1(1)] Folder.prems(2) by simp_all
    have n2: "named (name_of k2)"
      using entry_names_kid [OF _ k2(1)] Folder.prems(2) by simp
    have "below root (ms @ name_of k1 # ns1) = below root (ms @ name_of k2 # ns2)"
      using k1(4) k2(4) by simp
    moreover have "list_all named (ms @ name_of k1 # ns1)" "list_all named (ms @ name_of k2 # ns2)"
      using ms n1 n2 k1(3) k2(3) by simp_all
    ultimately have "ms @ name_of k1 # ns1 = ms @ name_of k2 # ns2" using below_inj by blast
    then have "name_of k1 = name_of k2" by simp
    moreover have "inj_on name_of (set kids)"
      using Folder.prems(3) by (simp add: distinct_map)
    ultimately have e: "k1 = k2" using k1(1) k2(1) by (auto dest: inj_onD)
    have d1: "distinct_names k1" using Folder.prems(3) k1(1) distinct_names_kid by auto
    from walked_join(2) [OF Folder.prems(1) n1]
    have w: "walked root (ms @ [name_of k1]) (filepath_Join pp (name_of k1))" .
    from Folder.IH [OF k1(1) w e1 d1 k1(2)] k2(2) e show ?thesis by simp
  qed
qed simp_all

lemma git_folder_parents_kid:
  assumes "k \<in> set kids"
  shows "git_folder_parents (filepath_Join p (name_of k)) k \<subseteq> git_folder_parents p (Folder n kids)"
  using assms unfolding git_folder_parents_def by (auto simp: entries_in_mem)

lemma walk_names_visit_spawned:
  assumes "\<And>k p st. k \<in> set ks \<Longrightarrow> set (snd (walk visit p k st)) \<subseteq> set st \<union> git_folder_parents p k"
  shows "set (snd (walk_names visit p ks st))
           \<subseteq> set st \<union> (\<Union>k\<in>set ks. git_folder_parents (filepath_Join p (name_of k)) k)"
  using assms
proof (induction ks arbitrary: st)
  case Nil
  then show ?case by simp
next
  case (Cons k ks)
  let ?f = "filepath_Join p (name_of k)"
  have ih: "set (snd (walk_names visit p ks st1))
              \<subseteq> set st1 \<union> (\<Union>k\<in>set ks. git_folder_parents (filepath_Join p (name_of k)) k)" for st1
    using Cons.IH Cons.prems by simp
  have hd: "set (snd (walk visit ?f k st)) \<subseteq> set st \<union> git_folder_parents ?f k"
    using Cons.prems by simp
  show ?case
  proof (cases "is_NoStat k")
    case True
    then show ?thesis using ih [of st] by (auto simp: visit_err)
  next
    case False
    obtain err st1 where w: "walk visit ?f k st = (err, st1)" by (cases "walk visit ?f k st")
    have s1: "set st1 \<subseteq> set st \<union> git_folder_parents ?f k" using hd w by simp
    show ?thesis
    proof (cases "err \<noteq> ErrNil \<and> (\<not> is_dir k \<or> err \<noteq> SkipDir)")
      case True
      then have "walk_names visit p (k # ks) st = (err, st1)" using False w by (simp add: Let_def)
      then show ?thesis using s1 by auto
    next
      case no: False
      then have "walk_names visit p (k # ks) st = walk_names visit p ks st1"
        using False w by (auto simp add: Let_def)
      then show ?thesis using s1 ih [of st1] by auto
    qed
  qed
qed

lemma walk_visit_spawned:
  "set (snd (walk visit p t st)) \<subseteq> set st \<union> git_folder_parents p t"
proof (induction t arbitrary: p st)
  case (Folder n kids)
  show ?case
  proof (cases "n = str ''.git''")
    case True
    have "filepath_Dir p \<in> git_folder_parents p (Folder n kids)"
      unfolding git_folder_parents_def using True by auto
    then show ?thesis using True by (simp add: visit_info)
  next
    case False
    have "set (snd (walk_names visit p kids st))
           \<subseteq> set st \<union> (\<Union>k\<in>set kids. git_folder_parents (filepath_Join p (name_of k)) k)"
      using Folder.IH by (rule walk_names_visit_spawned)
    then show ?thesis using False git_folder_parents_kid [of _ kids p n]
      by (auto simp: visit_info)
  qed
qed (simp_all add: visit_err visit_info)

lemma Walk_visit_spawned:
  "set (snd (Walk visit root t [])) \<subseteq> git_folder_parents root (rename (basename root) t)"
  using walk_visit_spawned [of root "rename (basename root) t" "[]"]
  by (auto simp add: Walk_def split: prod.splits)

lemma entries_not_dir: "\<not> is_dir t \<Longrightarrow> entries p t = [(p, t)]"
  by (cases t) simp_all

lemma basename_last: "p \<noteq> [] \<Longrightarrow> last p \<noteq> [] \<Longrightarrow> basename p = last p"
  by (cases p rule: rev_cases) (simp_all add: basename_def)

lemma Dir_snoc_not_below:
  assumes "named n" and "list_all named ms"
  shows "filepath_Dir (b @ [n]) \<noteq> below (b @ [n]) ms"
proof
  assume e: "filepath_Dir (b @ [n]) = below (b @ [n]) ms"
  define r where "r = is_rooted (b @ [n])"
  define c where "c = clean_elems r [] b"
  have n: "n \<noteq> []" using assms(1) by (simp add: named_def)
  have r': "is_rooted (b @ [[]]) = r"
    unfolding r_def using n by (cases b) (simp_all add: is_rooted_def)
  have c1: "clean_elems r [] (b @ [[]]) = c"
    unfolding c_def by (simp add: clean_elems_append clean_skip)
  have c2: "clean_elems r [] (b @ [n]) = c @ [n]"
    unfolding c_def using assms(1) by (simp add: clean_elems_append clean_elems_named)
  have k1: "canon r c" unfolding c_def by (rule canon_clean_elems) (rule canon_Nil)
  have "list_all named (n # ms)" using assms by simp
  from canon_append [OF k1 this] have k2: "canon r (c @ n # ms)" .
  have d: "filepath_Dir (b @ [n]) = rooted_form r c"
    by (simp add: filepath_Dir_def Clean_def r' c1)
  have f: "below (b @ [n]) ms = rooted_form r (c @ n # ms)"
    unfolding below_def r_def [symmetric] c2 by simp
  from rooted_form_inj [OF k1 k2] e d f have "c = c @ n # ms" by simp
  then show False by simp
qed

text \<open>
  An entry named \<open>.git\<close> that is not a directory leaves its parent unreported, unless the
  walk was started at a directory named \<open>.git\<close> that was written with a separator at its end.
\<close>

lemma Walk_skips_git_file:
  assumes "distinct_names t" and "entry_names t"
    and "(q, e) \<in> set (entries root (rename (basename root) t))"
    and "name_of e = str ''.git''" and "\<not> is_dir e"
    and "last root \<noteq> [] \<or> basename root \<noteq> str ''.git'' \<or> \<not> is_dir t"
  shows "filepath_Dir q \<notin> set (snd (Walk visit root t []))"
proof
  let ?t = "rename (basename root) t"
  assume "filepath_Dir q \<in> set (snd (Walk visit root t []))"
  then have "filepath_Dir q \<in> git_folder_parents root ?t" using Walk_visit_spawned by blast
  then obtain q' kids where
    q': "(q', Folder (str ''.git'') kids) \<in> set (entries root ?t)"
    and d: "filepath_Dir q = filepath_Dir q'"
    unfolding git_folder_parents_def by blast
  have w: "walked root [] root" by (rule walked_root)
  have en: "entry_names ?t" and dn: "distinct_names ?t" using assms(1,2) by simp_all
  have g: "named (str ''.git'')" by (simp add: named_def str_def)
  from entries_path [OF w en assms(3)]
  show False
  proof
    assume "q = root \<and> e = ?t"
    then have "\<not> is_dir ?t" using assms(5) by simp
    then have "entries root ?t = [(root, ?t)]" by (rule entries_not_dir)
    then have "?t = Folder (str ''.git'') kids" using q' by simp
    then show False using \<open>\<not> is_dir ?t\<close> by simp
  next
    assume "\<exists>ns. ns \<noteq> [] \<and> list_all named ns \<and> q = below root ([] @ ns) \<and> last ns = name_of e"
    then obtain ns where ns: "ns \<noteq> []" "list_all named ns" "q = below root ns" "last ns = str ''.git''"
      using assms(4) by auto
    have nb: "list_all named (butlast ns)" using ns(2) by (auto simp: list_all_iff dest: in_set_butlastD)
    have "ns = butlast ns @ [str ''.git'']" using ns(1,4) by (metis append_butlast_last_id)
    then have "q = below root (butlast ns @ [str ''.git''])" using ns(3) by simp
    then have dq: "filepath_Dir q = below root (butlast ns)" using Dir_below [OF nb g] by simp
    from entries_path [OF w en q']
    show False
    proof
      assume a: "q' = root \<and> Folder (str ''.git'') kids = ?t"
      then have "name_of ?t = str ''.git''" "is_dir ?t" by (metis name_of.simps(2), metis is_dir.simps(2))
      then have b: "basename root = str ''.git''" "is_dir t" by simp_all
      then have l: "last root \<noteq> []" using assms(6) by blast
      have "root \<noteq> []" using b(1) by (auto simp: basename_def str_def)
      then have "root = butlast root @ [str ''.git'']"
        using basename_last [OF _ l] b(1) by (metis append_butlast_last_id)
      then obtain b0 where r: "root = b0 @ [str ''.git'']" by blast
      from Dir_snoc_not_below [OF g nb, of b0] dq d a r show False by simp
    next
      assume "\<exists>ns. ns \<noteq> [] \<and> list_all named ns \<and> q' = below root ([] @ ns)
                  \<and> last ns = name_of (Folder (str ''.git'') kids)"
      then obtain ns' where ns': "ns' \<noteq> []" "list_all named ns'" "q' = below root ns'"
        "last ns' = str ''.git''" by auto
      have nb': "list_all named (butlast ns')"
        using ns'(2) by (auto simp: list_all_iff dest: in_set_butlastD)
      have e': "ns' = butlast ns' @ [str ''.git'']" using ns'(1,4) by (metis append_butlast_last_id)
      then have "q' = below root (butlast ns' @ [str ''.git''])" using ns'(3) by simp
      then have "filepath_Dir q' = below root (butlast ns')" using Dir_below [OF nb' g] by simp
      then have "below root (butlast ns) = below root (butlast ns')" using dq d by simp
      from below_inj [OF nb nb' this] have "butlast ns = butlast ns'" .
      then have "ns = ns'" using ns(1,4) ns'(1,4) by (metis append_butlast_last_id)
      then have "q = q'" using ns(3) ns'(3) by simp
      with entries_unique [OF w en dn assms(3)] q' have "e = Folder (str ''.git'') kids" by blast
      then show False using assms(5) by simp
    qed
  qed
qed

text \<open>
  Claim C10. The walk started at \<open>r/.git/\<close>, a directory that holds a plain file named
  \<open>.git\<close>, reports \<open>r/.git\<close>: \<open>visit\<close> receives the root as it is written, its name is
  \<open>.git\<close>, and \<open>filepath.Dir\<close> of a path that ends with a separator is that path without
  the separator. \<open>r/.git\<close> is the parent of the entry \<open>r/.git/.git\<close>, which is not a
  directory, and \<open>run\<close> starts a task for it and ends with a row for it. Started at
  \<open>r/.git\<close>, the walk of the same tree reports \<open>r\<close>.
\<close>

theorem Walk_git_root_reports_itself:
  "snd (Walk visit (Split_slash (str ''r/.git/'')) (Folder (str ''.git'') [File (str ''.git'')]) [])
     = [Split_slash (str ''r/.git'')]
   \<and> (Split_slash (str ''r/.git/.git''), File (str ''.git''))
       \<in> set (entries (Split_slash (str ''r/.git/'')) (Folder (str ''.git'') [File (str ''.git'')]))
   \<and> filepath_Dir (Split_slash (str ''r/.git/.git'')) = Split_slash (str ''r/.git'')
   \<and> run \<lparr>remote_v = (\<lambda>d. ([], True)), pull = (\<lambda>d. True)\<rparr>
        (\<lambda>d. Folder (str ''.git'') [File (str ''.git'')]) [0, 0] [str ''r/.git/'']
     = Returns \<lparr>summary = [[str ''r/.git'', [], Failed]],
                cmds = [GitRemote (str ''r/.git''), GitPull (str ''r/.git'')]\<rparr>
   \<and> snd (Walk visit (Split_slash (str ''r/.git'')) (Folder (str ''.git'') [File (str ''.git'')]) [])
     = [Split_slash (str ''r'')]"
  by (simp add: run_def all_done_def Walk_def visit_def filepath_Join_def filepath_Dir_def Clean_def
        rooted_form_def is_rooted_def basename_def clean_elems.simps str_def
        spawn_def step_def pullRepository_record_def pullRepository_pull_def
        getGitStatus_def TrimSpace_def IsSpace_def Fields.simps
        Pending_def Unknown_def Success_def Failed_def)

text \<open>
  Claim C1. The walk of a repository \<open>r\<close> that holds the metadata directory \<open>r/.git\<close> and a
  nested repository \<open>r/sub\<close> reports \<open>r\<close> and then \<open>r/sub\<close>: \<open>SkipDir\<close>, returned for the
  directory \<open>r/.git\<close>, skips the entries of \<open>r/.git\<close> only, and the walk goes on through
  the other entries of \<open>r\<close>.
\<close>

theorem Walk_reports_nested_repository:
  "snd (Walk visit [str ''r''] (Folder (str ''r'')
          [Folder (str ''.git'') [File (str ''HEAD'')],
           Folder (str ''sub'') [Folder (str ''.git'') []]]) [])
     = [[str ''r''], [str ''r'', str ''sub'']]"
  by (simp add: Walk_def visit_def filepath_Join_def filepath_Dir_def Clean_def rooted_form_def
        is_rooted_def basename_def clean_elems.simps str_def)

text \<open>The walk reports no directory twice.\<close>

lemma git_folder_parents_shape:
  assumes "walked root ms pp" and "named (name_of k)" and "entry_names k"
    and "d \<in> git_folder_parents (filepath_Join pp (name_of k)) k"
  shows "(d = below root ms \<and> name_of k = str ''.git'')
       \<or> (\<exists>r. list_all named r \<and> d = below root (ms @ name_of k # r))"
proof -
  have ms: "list_all named ms" using assms(1) by (simp add: walked_def)
  from assms(4) obtain q kids where
    q: "(q, Folder (str ''.git'') kids) \<in> set (entries (filepath_Join pp (name_of k)) k)"
    and d: "d = filepath_Dir q"
    unfolding git_folder_parents_def by blast
  from entries_child [OF assms(1,2,3) q] obtain ns where
    ns: "list_all named ns" "q = below root (ms @ name_of k # ns)"
    "last (name_of k # ns) = str ''.git''" by auto
  have g: "named (str ''.git'')" by (simp add: named_def str_def)
  show ?thesis
  proof (cases "ns = []")
    case True
    then have n: "name_of k = str ''.git''" using ns(3) by simp
    then have "q = below root (ms @ [str ''.git''])" using ns(2) True by simp
    then have "d = below root ms" using d Dir_below [OF ms g] by simp
    then show ?thesis using n by simp
  next
    case False
    then have l: "ns = butlast ns @ [str ''.git'']" using ns(3) by (metis append_butlast_last_id last_ConsR)
    have nb: "list_all named (butlast ns)" using ns(1) by (auto simp: list_all_iff dest: in_set_butlastD)
    have nm: "list_all named (ms @ name_of k # butlast ns)" using ms assms(2) nb by simp
    have "ms @ name_of k # ns = (ms @ name_of k # butlast ns) @ [str ''.git'']" using l by simp
    then have "q = below root ((ms @ name_of k # butlast ns) @ [str ''.git''])" using ns(2) by simp
    then have "d = below root (ms @ name_of k # butlast ns)" using d Dir_below [OF nm g] by simp
    then show ?thesis using nb by blast
  qed
qed

lemma git_folder_parents_disjoint:
  assumes "walked root ms pp" and "named (name_of k1)" and "entry_names k1"
    and "named (name_of k2)" and "entry_names k2" and "name_of k1 \<noteq> name_of k2"
  shows "git_folder_parents (filepath_Join pp (name_of k1)) k1
           \<inter> git_folder_parents (filepath_Join pp (name_of k2)) k2 = {}"
proof (rule ccontr)
  assume "git_folder_parents (filepath_Join pp (name_of k1)) k1
           \<inter> git_folder_parents (filepath_Join pp (name_of k2)) k2 \<noteq> {}"
  then obtain d where d: "d \<in> git_folder_parents (filepath_Join pp (name_of k1)) k1"
    "d \<in> git_folder_parents (filepath_Join pp (name_of k2)) k2" by blast
  have ms: "list_all named ms" using assms(1) by (simp add: walked_def)
  from git_folder_parents_shape [OF assms(1,2,3) d(1)]
  have s1: "(d = below root ms \<and> name_of k1 = str ''.git'')
       \<or> (\<exists>r. list_all named r \<and> d = below root (ms @ name_of k1 # r))" .
  from git_folder_parents_shape [OF assms(1,4,5) d(2)]
  have s2: "(d = below root ms \<and> name_of k2 = str ''.git'')
       \<or> (\<exists>r. list_all named r \<and> d = below root (ms @ name_of k2 # r))" .
  have deep: False if "d = below root ms" "list_all named r" "d = below root (ms @ n # r)" "named n" for n r
  proof -
    have "list_all named (ms @ n # r)" using ms that by simp
    moreover have "below root ms = below root (ms @ n # r)" using that(1,3) by simp
    ultimately have "ms = ms @ n # r" using below_inj [OF ms] by blast
    then show False by simp
  qed
  from s1 show False
  proof
    assume a: "d = below root ms \<and> name_of k1 = str ''.git''"
    from s2 show False
    proof
      assume "d = below root ms \<and> name_of k2 = str ''.git''"
      then show False using a assms(6) by simp
    next
      assume "\<exists>r. list_all named r \<and> d = below root (ms @ name_of k2 # r)"
      then obtain r where "list_all named r" "d = below root (ms @ name_of k2 # r)" by blast
      then show False using deep a assms(4) by blast
    qed
  next
    assume "\<exists>r. list_all named r \<and> d = below root (ms @ name_of k1 # r)"
    then obtain r1 where r1: "list_all named r1" "d = below root (ms @ name_of k1 # r1)" by blast
    from s2 show False
    proof
      assume "d = below root ms \<and> name_of k2 = str ''.git''"
      then show False using deep r1 assms(2) by blast
    next
      assume "\<exists>r. list_all named r \<and> d = below root (ms @ name_of k2 # r)"
      then obtain r2 where r2: "list_all named r2" "d = below root (ms @ name_of k2 # r2)" by blast
      have "list_all named (ms @ name_of k1 # r1)" "list_all named (ms @ name_of k2 # r2)"
        using ms assms(2,4) r1(1) r2(1) by simp_all
      moreover have "below root (ms @ name_of k1 # r1) = below root (ms @ name_of k2 # r2)"
        using r1(2) r2(2) by simp
      ultimately have "ms @ name_of k1 # r1 = ms @ name_of k2 # r2" by (rule below_inj)
      then show False using assms(6) by simp
    qed
  qed
qed

lemma walk_names_visit_distinct:
  assumes "walked root ms pp" and "distinct (map name_of ks)" and "entry_names_in ks"
    and "\<And>k st. k \<in> set ks \<Longrightarrow>
           \<exists>new. snd (walk visit (filepath_Join pp (name_of k)) k st) = st @ new \<and> distinct new
                 \<and> set new \<subseteq> git_folder_parents (filepath_Join pp (name_of k)) k"
  shows "\<exists>new. snd (walk_names visit pp ks st) = st @ new \<and> distinct new
           \<and> set new \<subseteq> (\<Union>k\<in>set ks. git_folder_parents (filepath_Join pp (name_of k)) k)"
  using assms(2,3,4)
proof (induction ks arbitrary: st)
  case Nil
  then show ?case by simp
next
  case (Cons k ks)
  let ?f = "filepath_Join pp (name_of k)"
  let ?U = "\<Union>k\<in>set ks. git_folder_parents (filepath_Join pp (name_of k)) k"
  have ih: "\<exists>new. snd (walk_names visit pp ks st1) = st1 @ new \<and> distinct new \<and> set new \<subseteq> ?U" for st1
    using Cons.IH Cons.prems by simp
  have nk: "named (name_of k)" "entry_names k" using Cons.prems(2) by (simp_all add: entry_name_named)
  have disj: "git_folder_parents ?f k \<inter> ?U = {}"
  proof -
    have "git_folder_parents ?f k \<inter> git_folder_parents (filepath_Join pp (name_of k')) k' = {}"
      if "k' \<in> set ks" for k'
    proof -
      have "name_of k \<noteq> name_of k'" using Cons.prems(1) that by auto
      moreover have "named (name_of k')" "entry_names k'"
        using entry_names_kid [OF _ that] Cons.prems(2) by simp_all
      ultimately show ?thesis using git_folder_parents_disjoint [OF assms(1) nk] by blast
    qed
    then show ?thesis by blast
  qed
  show ?case
  proof (cases "is_NoStat k")
    case True
    from ih [of st] obtain new where "snd (walk_names visit pp ks st) = st @ new" "distinct new" "set new \<subseteq> ?U"
      by blast
    then have "snd (walk_names visit pp (k # ks) st) = st @ new \<and> distinct new
               \<and> set new \<subseteq> (\<Union>k\<in>set (k # ks). git_folder_parents (filepath_Join pp (name_of k)) k)"
      using True by (auto simp: visit_err)
    then show ?thesis by blast
  next
    case False
    obtain err st1 where w: "walk visit ?f k st = (err, st1)" by (cases "walk visit ?f k st")
    from Cons.prems(3) [of k st] w obtain new1 where
      n1: "st1 = st @ new1" "distinct new1" "set new1 \<subseteq> git_folder_parents ?f k" by auto
    show ?thesis
    proof (cases "err \<noteq> ErrNil \<and> (\<not> is_dir k \<or> err \<noteq> SkipDir)")
      case True
      then have "walk_names visit pp (k # ks) st = (err, st1)" using False w by (simp add: Let_def)
      then have "snd (walk_names visit pp (k # ks) st) = st @ new1 \<and> distinct new1
               \<and> set new1 \<subseteq> (\<Union>k\<in>set (k # ks). git_folder_parents (filepath_Join pp (name_of k)) k)"
        using n1 by auto
      then show ?thesis by blast
    next
      case no: False
      then have e: "walk_names visit pp (k # ks) st = walk_names visit pp ks st1"
        using False w by (auto simp add: Let_def)
      from ih [of st1] obtain new2 where
        n2: "snd (walk_names visit pp ks st1) = st1 @ new2" "distinct new2" "set new2 \<subseteq> ?U" by blast
      have "set new1 \<inter> set new2 = {}" using n1(3) n2(3) disj by blast
      then have "snd (walk_names visit pp (k # ks) st) = st @ (new1 @ new2) \<and> distinct (new1 @ new2)
               \<and> set (new1 @ new2) \<subseteq> (\<Union>k\<in>set (k # ks). git_folder_parents (filepath_Join pp (name_of k)) k)"
        using e n1 n2 by auto
      then show ?thesis by blast
    qed
  qed
qed

lemma walk_visit_distinct:
  "walked root ms pp \<Longrightarrow> distinct_names t \<Longrightarrow> entry_names t \<Longrightarrow>
     \<exists>new. snd (walk visit pp t st) = st @ new \<and> distinct new \<and> set new \<subseteq> git_folder_parents pp t"
proof (induction t arbitrary: ms pp st)
  case (Folder n kids)
  show ?case
  proof (cases "n = str ''.git''")
    case True
    have "filepath_Dir pp \<in> git_folder_parents pp (Folder n kids)"
      unfolding git_folder_parents_def using True by auto
    then have "snd (walk visit pp (Folder n kids) st) = st @ [filepath_Dir pp] \<and> distinct [filepath_Dir pp]
               \<and> set [filepath_Dir pp] \<subseteq> git_folder_parents pp (Folder n kids)"
      using True by (simp add: visit_info)
    then show ?thesis by blast
  next
    case False
    have k: "\<exists>new. snd (walk visit (filepath_Join pp (name_of k)) k st') = st' @ new \<and> distinct new
                 \<and> set new \<subseteq> git_folder_parents (filepath_Join pp (name_of k)) k"
      if "k \<in> set kids" for k st'
    proof -
      have nk: "named (name_of k)" "entry_names k"
        using entry_names_kid [OF _ that] Folder.prems(3) by simp_all
      have dk: "distinct_names k" using distinct_names_kid [OF _ that] Folder.prems(2) by simp
      from walked_join(2) [OF Folder.prems(1) nk(1)]
      have "walked root (ms @ [name_of k]) (filepath_Join pp (name_of k))" .
      from Folder.IH [OF that this dk nk(2)] show ?thesis .
    qed
    have "distinct (map name_of kids)" "entry_names_in kids" using Folder.prems by simp_all
    from walk_names_visit_distinct [OF Folder.prems(1) this k, where st = st] obtain new where
      "snd (walk_names visit pp kids st) = st @ new" "distinct new"
      "set new \<subseteq> (\<Union>k\<in>set kids. git_folder_parents (filepath_Join pp (name_of k)) k)"
      by blast
    then have "snd (walk visit pp (Folder n kids) st) = st @ new \<and> distinct new
               \<and> set new \<subseteq> git_folder_parents pp (Folder n kids)"
      using False git_folder_parents_kid [of _ kids pp n] by (auto simp: visit_info)
    then show ?thesis by blast
  qed
qed (simp_all add: visit_err visit_info)

lemma Walk_visit_distinct:
  assumes "distinct_names t" and "entry_names t"
  shows "distinct (snd (Walk visit root t []))"
proof -
  have "distinct_names (rename (basename root) t)" "entry_names (rename (basename root) t)"
    using assms by simp_all
  from walk_visit_distinct [OF walked_root this, of root "[]"]
  show ?thesis by (auto simp: Walk_def split: prod.splits)
qed

lemma path_str_slash: "ys \<noteq> [] \<Longrightarrow> 0x2F \<in> set (path_str (b # ys))"
  by (cases ys) simp_all

lemma split_at_first:
  "x \<notin> set a \<Longrightarrow> x \<notin> set b \<Longrightarrow> a @ x # u = b @ x # v \<Longrightarrow> a = b \<and> u = v"
proof (induction a arbitrary: b)
  case Nil
  then show ?case by (cases b) auto
next
  case (Cons c cs)
  then show ?case by (cases b) auto
qed

lemma path_str_inj:
  assumes "xs \<noteq> []" and "ys \<noteq> []"
    and "\<forall>n\<in>set xs. 0x2F \<notin> set n" and "\<forall>n\<in>set ys. 0x2F \<notin> set n"
    and "path_str xs = path_str ys"
  shows "xs = ys"
  using assms
proof (induction xs arbitrary: ys rule: path_str.induct)
  case 1
  then show ?case by simp
next
  case (2 a)
  then obtain b bs where ys: "ys = b # bs" by (cases ys) auto
  show ?case
  proof (cases bs)
    case Nil
    then show ?thesis using 2 ys by simp
  next
    case (Cons c cs)
    then have "0x2F \<in> set (path_str ys)" using ys path_str_slash [of bs b] by simp
    then show ?thesis using 2 by simp
  qed
next
  case (3 a a' as)
  then obtain b bs where ys: "ys = b # bs" by (cases ys) auto
  show ?case
  proof (cases bs)
    case Nil
    have "path_str (a # a' # as) = b" using 3(6) ys Nil by simp
    then have "0x2F \<in> set b" using path_str_slash [of "a' # as" a] by auto
    moreover have "0x2F \<notin> set b" using 3(5) ys by simp
    ultimately show ?thesis by blast
  next
    case (Cons b' bs')
    have e: "a @ 0x2F # path_str (a' # as) = b @ 0x2F # path_str (b' # bs')"
      using 3(6) ys Cons by simp
    have na: "0x2F \<notin> set a" and nb: "0x2F \<notin> set b" using 3(4,5) ys by simp_all
    have ab: "a = b \<and> path_str (a' # as) = path_str (b' # bs')"
      using na nb e by (rule split_at_first)
    have "\<forall>n\<in>set (a' # as). 0x2F \<notin> set n" "\<forall>n\<in>set (b' # bs'). 0x2F \<notin> set n"
      using 3(4,5) ys Cons by simp_all
    then have "a' # as = b' # bs'"
      using ab by (intro 3(1)) simp_all
    then show ?thesis using ab ys Cons by simp
  qed
qed

lemma Split_slash_nonempty: "Split_slash s \<noteq> []"
  by (induction s) (auto split: list.splits)

lemma Split_slash_free: "n \<in> set (Split_slash s) \<Longrightarrow> 0x2F \<notin> set n"
proof (induction s arbitrary: n)
  case Nil
  then show ?case by simp
next
  case (Cons c cs)
  show ?case
  proof (cases "c = 0x2F")
    case True
    then show ?thesis using Cons by auto
  next
    case False
    obtain x xs where x: "Split_slash cs = x # xs"
      using Split_slash_nonempty [of cs] by (cases "Split_slash cs") auto
    then have "n = c # x \<or> n \<in> set xs" using Cons.prems False by simp
    then show ?thesis using Cons.IH [of x] Cons.IH [of n] x False by auto
  qed
qed

lemma path_str_Split_slash: "path_str (Split_slash s) = s"
proof (induction s)
  case Nil
  then show ?case by simp
next
  case (Cons c cs)
  obtain x xs where x: "Split_slash cs = x # xs"
    using Split_slash_nonempty [of cs] by (cases "Split_slash cs") auto
  show ?case
  proof (cases "c = 0x2F")
    case True
    then show ?thesis using Cons x by simp
  next
    case False
    then show ?thesis using Cons x by (cases xs) simp_all
  qed
qed

lemma clean_elems_set: "set (clean_elems r acc xs) \<subseteq> set acc \<union> set xs"
proof (induction xs arbitrary: acc)
  case Nil
  then show ?case by simp
next
  case (Cons x xs)
  have b: "set (butlast acc) \<subseteq> set acc" by (auto dest: in_set_butlastD)
  from clean_cases [of r acc x xs] Cons.IH [of acc] Cons.IH [of "butlast acc"] Cons.IH [of "acc @ [x]"] b
  show ?case by auto
qed

lemma rooted_form_set: "set (rooted_form r out) \<subseteq> set out \<union> {[], str ''.''}"
  and rooted_form_nonempty: "rooted_form r out \<noteq> []"
  by (auto simp: rooted_form_def)

lemma Clean_set: "set (Clean p) \<subseteq> set p \<union> {[], str ''.''}"
  using rooted_form_set [of "is_rooted p" "clean_elems (is_rooted p) [] p"]
    clean_elems_set [of "is_rooted p" "[]" p]
  unfolding Clean_def by auto

lemma Clean_nonempty: "Clean p \<noteq> []"
  by (simp add: Clean_def rooted_form_nonempty)

lemma Dir_set: "set (filepath_Dir p) \<subseteq> set p \<union> {[], str ''.''}"
  using Clean_set [of "butlast p @ [[]]"] unfolding filepath_Dir_def
  by (auto dest: in_set_butlastD)

lemma Dir_nonempty: "filepath_Dir p \<noteq> []"
  by (simp add: filepath_Dir_def Clean_nonempty)

lemma Join_set: "set (filepath_Join p n) \<subseteq> set p \<union> {n, [], str ''.''}"
  using Clean_set [of "p @ [n]"] Clean_set [of "[n]"] unfolding filepath_Join_def by auto

lemma dot_free: "0x2F \<notin> set (str ''.'')"
  by (simp add: str_def)

lemma entries_free:
  "\<forall>n\<in>set p. 0x2F \<notin> set n \<Longrightarrow> entry_names t \<Longrightarrow> (q, e) \<in> set (entries p t) \<Longrightarrow>
     \<forall>n\<in>set q. 0x2F \<notin> set n"
proof (induction t arbitrary: p q e)
  case (Folder m kids)
  show ?case
  proof (cases "(q, e) = (p, Folder m kids)")
    case True
    then show ?thesis using Folder.prems(1) by simp
  next
    case False
    then have "(q, e) \<in> set (entries_in p kids)" using Folder.prems by auto
    then obtain k where k: "k \<in> set kids" "(q, e) \<in> set (entries (filepath_Join p (name_of k)) k)"
      unfolding entries_in_mem by blast
    have ek: "entry_name (name_of k)" "entry_names k"
      using Folder.prems(2) k(1) by (induction kids) auto
    have "\<forall>n\<in>set (filepath_Join p (name_of k)). 0x2F \<notin> set n"
      using Join_set [of p "name_of k"] Folder.prems(1) ek(1) dot_free
      by (auto simp: entry_name_def)
    from Folder.IH [OF k(1) this ek(2) k(2)] show ?thesis .
  qed
qed simp_all

lemma Walk_visit_free:
  assumes "\<forall>n\<in>set root. 0x2F \<notin> set n" and "entry_names t"
    and "d \<in> set (snd (Walk visit root t []))"
  shows "d \<noteq> [] \<and> (\<forall>n\<in>set d. 0x2F \<notin> set n)"
proof -
  from assms(3) Walk_visit_spawned have "d \<in> git_folder_parents root (rename (basename root) t)"
    by blast
  then obtain q kids where
    q: "(q, Folder (str ''.git'') kids) \<in> set (entries root (rename (basename root) t))"
    and d: "d = filepath_Dir q"
    unfolding git_folder_parents_def by blast
  have "entry_names (rename (basename root) t)" using assms(2) by simp
  from entries_free [OF assms(1) this q] have "\<forall>n\<in>set q. 0x2F \<notin> set n" .
  then have "\<forall>n\<in>set d. 0x2F \<notin> set n" using Dir_set [of q] d dot_free by auto
  then show ?thesis using d Dir_nonempty by simp
qed

text \<open>
  The walk reports no directory twice: in a tree whose directories hold no two entries of
  the same name the reported paths are pairwise distinct, and so are the strings handed to
  \<open>pullRepository\<close>.
\<close>

lemma Walk_visit_distinct_str:
  assumes "distinct_names t" and "entry_names t"
  shows "distinct (map path_str (snd (Walk visit (Split_slash dir) t [])))"
proof -
  let ?S = "snd (Walk visit (Split_slash dir) t [])"
  have f: "\<forall>n\<in>set (Split_slash dir). 0x2F \<notin> set n" using Split_slash_free by blast
  have "inj_on path_str (set ?S)"
  proof (rule inj_onI)
    fix x y
    assume x: "x \<in> set ?S" and y: "y \<in> set ?S" and e: "path_str x = path_str y"
    from Walk_visit_free [OF f assms(2) x] have x': "x \<noteq> []" "\<forall>n\<in>set x. 0x2F \<notin> set n" by blast+
    from Walk_visit_free [OF f assms(2) y] have y': "y \<noteq> []" "\<forall>n\<in>set y. 0x2F \<notin> set n" by blast+
    from x'(1) y'(1) x'(2) y'(2) e show "x = y" by (rule path_str_inj)
  qed
  then show ?thesis using Walk_visit_distinct [OF assms] by (simp add: distinct_map)
qed

section \<open>Properties of the tasks\<close>

lemma initial_row_simps:
  "length (initial_row env d) = 3" "hd (initial_row env d) = d" "initial_row env d ! 0 = d"
  by (simp_all add: initial_row_def split: prod.splits)

lemma final_row_simps:
  "length (final_row env d) = 3" "hd (final_row env d) = d" "final_row env d ! 0 = d"
  "final_row env d ! 2 = final_status env d" "final_row env d ! 1 = initial_row env d ! 1"
  by (simp_all add: final_row_def initial_row_def split: prod.splits)

lemma record_summary:
  "summary (pullRepository_record env d g) = summary g @ [initial_row env d]"
  "cmds (pullRepository_record env d g) = cmds g @ [GitRemote d]"
  by (simp_all add: pullRepository_record_def initial_row_def split: prod.splits)

lemma updateStatus_wf:
  "rows_wf rows \<Longrightarrow> \<exists>rows'. updateStatus d st rows = Inr rows' \<and> rows_wf rows' \<and> length rows' = length rows"
proof (induction rows)
  case Nil
  then show ?case by (simp add: rows_wf_def)
next
  case (Cons r rest)
  from Cons.prems obtain p q s where r: "r = [p, q, s]"
    by (auto simp: rows_wf_def length_Suc_conv numeral_3_eq_3)
  from Cons obtain rest' where "updateStatus d st rest = Inr rest'" "rows_wf rest'" "length rest' = length rest"
    by (auto simp: rows_wf_def)
  then show ?case using r Cons.prems by (auto simp: rows_wf_def)
qed

lemma updateStatus_no_row:
  "rows_wf rows \<Longrightarrow> d \<notin> hd ` set rows \<Longrightarrow> updateStatus d st rows = Inr rows"
proof (induction rows)
  case Nil
  then show ?case by simp
next
  case (Cons r rest)
  from Cons.prems obtain p q s where r: "r = [p, q, s]"
    by (auto simp: rows_wf_def length_Suc_conv numeral_3_eq_3)
  then show ?case using Cons by (auto simp: rows_wf_def)
qed

lemma updateStatus_distinct:
  "rows_wf rows \<Longrightarrow> distinct (map hd rows) \<Longrightarrow>
   updateStatus d st rows = Inr (map (set_status d st) rows)"
proof (induction rows)
  case Nil
  then show ?case by simp
next
  case (Cons r rest)
  from Cons.prems obtain p q s where r: "r = [p, q, s]"
    by (auto simp: rows_wf_def length_Suc_conv numeral_3_eq_3)
  have wf: "rows_wf rest" using Cons.prems by (simp add: rows_wf_def)
  show ?case
  proof (cases "p = d")
    case True
    then have "d \<notin> hd ` set rest" using Cons.prems(2) r by auto
    then have m: "map (set_status d st) rest = rest"
      by (induction rest) (auto simp: set_status_def)
    have h: "set_status d st r = [p, q, st]" using True r by (simp add: set_status_def)
    have "updateStatus d st (r # rest) = Inr ([p, q, st] # rest)" using True r by simp
    then show ?thesis using h m by simp
  next
    case False
    then have h: "set_status d st r = r" using r by (simp add: set_status_def)
    have "updateStatus d st (r # rest) = Inr (r # map (set_status d st) rest)"
      using False Cons.IH [OF wf] Cons.prems(2) r by simp
    then show ?thesis using h by simp
  qed
qed

lemma pull_cmds:
  "pullRepository_pull env d g = Inr g' \<Longrightarrow> cmds g' = cmds g @ [GitPull d]"
  by (auto simp: pullRepository_pull_def Let_def split: sum.splits)

lemma pull_wf:
  assumes "rows_wf (summary g)"
  shows "\<exists>g'. pullRepository_pull env d g = Inr g' \<and> rows_wf (summary g')
           \<and> length (summary g') = length (summary g)"
proof -
  from updateStatus_wf [OF assms, of d "final_status env d"] obtain rows' where
    "updateStatus d (final_status env d) (summary g) = Inr rows'" "rows_wf rows'"
    "length rows' = length (summary g)" by blast
  then show ?thesis by (simp add: pullRepository_pull_def Let_def final_status_def)
qed

lemma pull_distinct:
  assumes "rows_wf (summary g)" and "distinct (map hd (summary g))"
  shows "pullRepository_pull env d g =
           Inr (g\<lparr>cmds := cmds g @ [GitPull d],
                  summary := map (set_status d (final_status env d)) (summary g)\<rparr>)"
  using updateStatus_distinct [OF assms, of d "final_status env d"]
  by (simp add: pullRepository_pull_def Let_def final_status_def)

lemma card_index_insert:
  assumes "i < n" and "\<not> P i"
  shows "card {j. j < n \<and> (j = i \<or> P j)} = Suc (card {j. j < (n::nat) \<and> P j})"
proof -
  have "{j. j < n \<and> (j = i \<or> P j)} = insert i {j. j < n \<and> P j}" using assms by auto
  moreover have "finite {j. j < n \<and> P j}" by simp
  moreover have "i \<notin> {j. j < n \<and> P j}" using assms by simp
  ultimately show ?thesis by simp
qed


lemma card_phase_update:
  assumes "i < length ps" and "length ps = n" and "\<not> P (ps ! i)"
  shows "card {j. j < n \<and> Q j \<and> P (ps[i := v] ! j)}
           = card {j. j < n \<and> Q j \<and> P (ps ! j)} + (if Q i \<and> P v then 1 else 0)"
proof (cases "Q i \<and> P v")
  case True
  have "{j. j < n \<and> Q j \<and> P (ps[i := v] ! j)} = insert i {j. j < n \<and> Q j \<and> P (ps ! j)}"
    using assms True by (auto simp: nth_list_update)
  moreover have "finite {j. j < n \<and> Q j \<and> P (ps ! j)}" by simp
  moreover have "i \<notin> {j. j < n \<and> Q j \<and> P (ps ! j)}" using assms(3) by simp
  ultimately show ?thesis using True by simp
next
  case False
  have "{j. j < n \<and> Q j \<and> P (ps[i := v] ! j)} = {j. j < n \<and> Q j \<and> P (ps ! j)}"
    using assms False by (auto simp: nth_list_update)
  then show ?thesis using False by simp
qed

lemma card_phase_same:
  assumes "i < length ps" and "length ps = n" and "P (ps ! i) = P v"
  shows "card {j. j < n \<and> Q j \<and> P (ps[i := v] ! j)} = card {j. j < n \<and> Q j \<and> P (ps ! j)}"
proof -
  have "{j. j < n \<and> Q j \<and> P (ps[i := v] ! j)} = {j. j < n \<and> Q j \<and> P (ps ! j)}"
    using assms by (auto simp: nth_list_update)
  then show ?thesis by simp
qed

lemma step_basic:
  assumes "basic_inv dirs s"
  shows "\<exists>s'. step env dirs i s = Inr s' \<and> basic_inv dirs s'"
proof -
  obtain ps g where s: "s = (ps, g)" by (cases s)
  from assms s have len: "length ps = length dirs" and wf: "rows_wf (summary g)"
    and cp: "\<And>d. count_list (cmds g) (GitPull d)
                 = card {j. j < length dirs \<and> dirs ! j = d \<and> ps ! j = Finished}"
    and cr: "\<And>d. count_list (cmds g) (GitRemote d)
                 = card {j. j < length dirs \<and> dirs ! j = d \<and> ps ! j \<noteq> Spawned}"
    by (simp_all add: basic_inv_def)
  show ?thesis
  proof (cases "i < length dirs")
    case False
    then show ?thesis using assms s by (simp add: step_def)
  next
    case True
    then have i: "i < length ps" using len by simp
    show ?thesis
    proof (cases "ps ! i")
      case Spawned
      let ?g = "pullRepository_record env (dirs ! i) g"
      have st: "step env dirs i s = Inr (ps[i := Recorded], ?g)"
        using True i Spawned s by (simp add: step_def)
      have w: "rows_wf (summary ?g)"
        using wf by (simp add: record_summary rows_wf_def initial_row_simps)
      have p: "count_list (cmds ?g) (GitPull d)
                 = card {j. j < length dirs \<and> dirs ! j = d \<and> ps[i := Recorded] ! j = Finished}" for d
        using card_phase_same [OF i len, of "\<lambda>p. p = Finished" Recorded "\<lambda>j. dirs ! j = d"] Spawned cp [of d]
        by (simp add: record_summary)
      have r: "count_list (cmds ?g) (GitRemote d)
                 = card {j. j < length dirs \<and> dirs ! j = d \<and> ps[i := Recorded] ! j \<noteq> Spawned}" for d
        using card_phase_update [OF i len, of "\<lambda>p. p \<noteq> Spawned" "\<lambda>j. dirs ! j = d" Recorded] Spawned cr [of d]
        by (auto simp add: record_summary)
      have "basic_inv dirs (ps[i := Recorded], ?g)"
        using len w p r by (simp add: basic_inv_def)
      then show ?thesis using st by blast
    next
      case Recorded
      from pull_wf [OF wf, of env "dirs ! i"] obtain g' where
        g': "pullRepository_pull env (dirs ! i) g = Inr g'" "rows_wf (summary g')" by blast
      have c: "cmds g' = cmds g @ [GitPull (dirs ! i)]" using g'(1) by (rule pull_cmds)
      have st: "step env dirs i s = Inr (ps[i := Finished], g')"
        using True i Recorded s g'(1) by (simp add: step_def)
      have p: "count_list (cmds g') (GitPull d)
                 = card {j. j < length dirs \<and> dirs ! j = d \<and> ps[i := Finished] ! j = Finished}" for d
        using card_phase_update [OF i len, of "\<lambda>p. p = Finished" "\<lambda>j. dirs ! j = d" Finished] Recorded cp [of d]
        by (auto simp add: c)
      have r: "count_list (cmds g') (GitRemote d)
                 = card {j. j < length dirs \<and> dirs ! j = d \<and> ps[i := Finished] ! j \<noteq> Spawned}" for d
        using card_phase_same [OF i len, of "\<lambda>p. p \<noteq> Spawned" Finished "\<lambda>j. dirs ! j = d"] Recorded cr [of d]
        by (simp add: c)
      have "basic_inv dirs (ps[i := Finished], g')"
        using len g'(2) p r by (simp add: basic_inv_def)
      then show ?thesis using st by blast
    next
      case Finished
      then show ?thesis using assms s True i by (simp add: step_def)
    qed
  qed
qed

lemma exec_basic:
  "basic_inv dirs s \<Longrightarrow> \<exists>s'. exec env dirs sched s = Inr s' \<and> basic_inv dirs s'"
proof (induction sched arbitrary: s)
  case Nil
  then show ?case by simp
next
  case (Cons i sched)
  from step_basic [OF Cons.prems, of env i] obtain s1 where
    s1: "step env dirs i s = Inr s1" "basic_inv dirs s1" by blast
  from Cons.IH [OF s1(2)] s1(1) show ?case by simp
qed

lemma spawn_basic: "basic_inv dirs (spawn dirs)"
  by (simp add: basic_inv_def spawn_def rows_wf_def)

lemma card_all_indices: "card {i. i < length dirs \<and> dirs ! i = d} = count_list dirs d"
proof -
  have "count_list dirs d = length (filter ((=) d) dirs)"
    by (rule count_list_eq_length_filter)
  also have "\<dots> = card {i. i < length dirs \<and> d = dirs ! i}"
    by (rule length_filter_conv_card)
  also have "{i. i < length dirs \<and> d = dirs ! i} = {i. i < length dirs \<and> dirs ! i = d}" by auto
  finally show ?thesis by simp
qed

lemma all_done_nth: "all_done ps \<Longrightarrow> i < length ps \<Longrightarrow> ps ! i = Finished"
  by (simp add: all_done_def list_all_length)

lemma basic_inv_done:
  assumes "basic_inv dirs (ps, g)" and "all_done ps"
  shows "count_list (cmds g) (GitPull d) = count_list dirs d"
    and "count_list (cmds g) (GitRemote d) = count_list dirs d"
proof -
  from assms(1) have len: "length ps = length dirs" by (simp add: basic_inv_def)
  have f: "ps ! i = Finished" if "i < length dirs" for i
    using all_done_nth [OF assms(2)] that len by simp
  have "{j. j < length dirs \<and> dirs ! j = d \<and> ps ! j = Finished} = {i. i < length dirs \<and> dirs ! i = d}"
    using f by auto
  then show "count_list (cmds g) (GitPull d) = count_list dirs d"
    using assms(1) card_all_indices [of dirs d] by (simp add: basic_inv_def)
  have "{j. j < length dirs \<and> dirs ! j = d \<and> ps ! j \<noteq> Spawned} = {i. i < length dirs \<and> dirs ! i = d}"
    using f by auto
  then show "count_list (cmds g) (GitRemote d) = count_list dirs d"
    using assms(1) card_all_indices [of dirs d] by (simp add: basic_inv_def)
qed


lemma hd_update2: "hd (r[2 := x]) = hd r"
  by (cases r) (simp_all add: numeral_2_eq_2)

lemma final_row_update:
  "(initial_row env d)[2 := final_status env d] = final_row env d"
  by (simp add: final_row_def)

lemma step_tasks_inv:
  assumes "distinct dirs" and "tasks_inv env dirs s" and "step env dirs i s = Inr s'"
  shows "tasks_inv env dirs s'"
proof -
  obtain ps g where s: "s = (ps, g)" by (cases s)
  from assms(2) s have len: "length ps = length dirs" and wf: "rows_wf (summary g)"
    and dist: "distinct (map hd (summary g))"
    and img: "hd ` set (summary g) = {dirs ! j | j. j < length dirs \<and> ps ! j \<noteq> Spawned}"
    and rec: "\<And>j. j < length dirs \<Longrightarrow> ps ! j = Recorded \<Longrightarrow> initial_row env (dirs ! j) \<in> set (summary g)"
    and fin: "\<And>j. j < length dirs \<Longrightarrow> ps ! j = Finished \<Longrightarrow> final_row env (dirs ! j) \<in> set (summary g)"
    by (simp_all add: tasks_inv_def)
  have inj: "dirs ! j = dirs ! k \<longleftrightarrow> j = k" if "j < length dirs" "k < length dirs" for j k
    using assms(1) that by (simp add: nth_eq_iff_index_eq)
  show ?thesis
  proof (cases "i < length dirs")
    case False
    then show ?thesis using assms(2,3) s by (simp add: step_def)
  next
    case True
    then have i: "i < length ps" using len by simp
    show ?thesis
    proof (cases "ps ! i")
      case Spawned
      let ?g = "pullRepository_record env (dirs ! i) g"
      let ?ps = "ps[i := Recorded]"
      have s': "s' = (?ps, ?g)"
        using assms(3) True i Spawned s by (simp add: step_def)
      have new: "dirs ! i \<notin> hd ` set (summary g)"
      proof
        assume "dirs ! i \<in> hd ` set (summary g)"
        then obtain j where "j < length dirs" "ps ! j \<noteq> Spawned" "dirs ! i = dirs ! j"
          unfolding img by blast
        then show False using inj [OF True, of j] Spawned by simp
      qed
      have a: "rows_wf (summary ?g)"
        using wf by (simp add: record_summary rows_wf_def initial_row_simps)
      have b: "distinct (map hd (summary ?g))"
        using dist new by (simp add: record_summary initial_row_simps)
      have c: "hd ` set (summary ?g) = {dirs ! j | j. j < length dirs \<and> ?ps ! j \<noteq> Spawned}"
      proof -
        have "{dirs ! j | j. j < length dirs \<and> ?ps ! j \<noteq> Spawned}
                = insert (dirs ! i) {dirs ! j | j. j < length dirs \<and> ps ! j \<noteq> Spawned}"
          using True i by (auto simp: nth_list_update)
        then show ?thesis using img by (simp add: record_summary initial_row_simps)
      qed
      have d: "initial_row env (dirs ! j) \<in> set (summary ?g)"
        if "j < length dirs" "?ps ! j = Recorded" for j
        using that rec [of j] i by (cases "j = i") (simp_all add: record_summary)
      have e: "final_row env (dirs ! j) \<in> set (summary ?g)"
        if "j < length dirs" "?ps ! j = Finished" for j
        using that fin [of j] i by (cases "j = i") (simp_all add: record_summary)
      show ?thesis unfolding s' tasks_inv_def using len a b c d e by simp
    next
      case Recorded
      let ?f = "set_status (dirs ! i) (final_status env (dirs ! i))"
      let ?g = "g\<lparr>cmds := cmds g @ [GitPull (dirs ! i)], summary := map ?f (summary g)\<rparr>"
      let ?ps = "ps[i := Finished]"
      have pg: "pullRepository_pull env (dirs ! i) g = Inr ?g"
        using wf dist by (rule pull_distinct)
      have s': "s' = (?ps, ?g)"
        using assms(3) True i Recorded s pg by (simp add: step_def)
      have hdf: "hd (?f r) = hd r" for r by (simp add: set_status_def hd_update2)
      have a: "rows_wf (summary ?g)"
        using wf by (auto simp add: rows_wf_def list_all_iff set_status_def)
      have hm: "map hd (map ?f (summary g)) = map hd (summary g)"
        by (simp add: hdf)
      have sg: "summary ?g = map ?f (summary g)" by simp
      have b: "distinct (map hd (summary ?g))" unfolding sg hm using dist .
      have "hd ` set (map ?f (summary g)) = hd ` set (summary g)"
        by (simp add: image_image hdf)
      moreover have "{dirs ! j | j. j < length dirs \<and> ?ps ! j \<noteq> Spawned}
                = {dirs ! j | j. j < length dirs \<and> ps ! j \<noteq> Spawned}"
        using True i Recorded by (auto simp: nth_list_update)
      ultimately have c: "hd ` set (summary ?g) = {dirs ! j | j. j < length dirs \<and> ?ps ! j \<noteq> Spawned}"
        using img by simp
      have keep: "?f r = r" if "hd r = dirs ! j" "j < length dirs" "j \<noteq> i" for r j
        using that inj [OF that(2) True] by (simp add: set_status_def)
      have d: "initial_row env (dirs ! j) \<in> set (summary ?g)"
        if "j < length dirs" "?ps ! j = Recorded" for j
      proof -
        have ji: "j \<noteq> i" using that i by auto
        then have "initial_row env (dirs ! j) \<in> set (summary g)" using that rec [of j] by simp
        then have "?f (initial_row env (dirs ! j)) \<in> set (map ?f (summary g))" by simp
        moreover have "?f (initial_row env (dirs ! j)) = initial_row env (dirs ! j)"
          using keep [of "initial_row env (dirs ! j)" j] that(1) ji by (simp add: initial_row_simps)
        ultimately show ?thesis by simp
      qed
      have e: "final_row env (dirs ! j) \<in> set (summary ?g)"
        if "j < length dirs" "?ps ! j = Finished" for j
      proof (cases "j = i")
        case True
        have "initial_row env (dirs ! i) \<in> set (summary g)" using rec [of i] Recorded \<open>i < length dirs\<close> by simp
        then have "?f (initial_row env (dirs ! i)) \<in> set (map ?f (summary g))" by simp
        moreover have "?f (initial_row env (dirs ! i)) = final_row env (dirs ! i)"
          by (simp add: set_status_def initial_row_simps final_row_update)
        ultimately show ?thesis using True by simp
      next
        case False
        then have "final_row env (dirs ! j) \<in> set (summary g)" using that fin [of j] by simp
        then have "?f (final_row env (dirs ! j)) \<in> set (map ?f (summary g))" by simp
        moreover have "?f (final_row env (dirs ! j)) = final_row env (dirs ! j)"
          using keep [of "final_row env (dirs ! j)" j] that(1) False by (simp add: final_row_simps)
        ultimately show ?thesis by simp
      qed
      show ?thesis unfolding s' tasks_inv_def using len a b c d e by simp
    next
      case Finished
      then show ?thesis using assms(2,3) s True i by (simp add: step_def)
    qed
  qed
qed

lemma exec_tasks_inv:
  "distinct dirs \<Longrightarrow> tasks_inv env dirs s \<Longrightarrow> exec env dirs sched s = Inr s' \<Longrightarrow> tasks_inv env dirs s'"
proof (induction sched arbitrary: s)
  case Nil
  then show ?case by simp
next
  case (Cons i sched)
  from Cons.prems(3) obtain s1 where s1: "step env dirs i s = Inr s1" "exec env dirs sched s1 = Inr s'"
    by (auto split: sum.splits)
  from step_tasks_inv [OF Cons.prems(1,2) s1(1)] have "tasks_inv env dirs s1" .
  from Cons.IH [OF Cons.prems(1) this s1(2)] show ?case .
qed

lemma spawn_tasks_inv: "tasks_inv env dirs (spawn dirs)"
  by (simp add: tasks_inv_def spawn_def rows_wf_def)

lemma exec_append:
  "exec env dirs (s1 @ s2) s = (case exec env dirs s1 s of Inl p \<Rightarrow> Inl p | Inr s' \<Rightarrow> exec env dirs s2 s')"
  by (induction s1 arbitrary: s) (auto split: sum.splits)

lemma step_phase_mono:
  assumes "step env dirs i (ps, g) = Inr (ps', g')"
  shows "length ps' = length ps \<and> (\<forall>j<length ps. phase_rank (ps ! j) \<le> phase_rank (ps' ! j))"
  using assms
  by (auto simp: step_def nth_list_update split: if_splits phase.splits sum.splits)

lemma exec_phase_mono:
  "exec env dirs sched (ps, g) = Inr (ps', g') \<Longrightarrow>
     length ps' = length ps \<and> (\<forall>j<length ps. phase_rank (ps ! j) \<le> phase_rank (ps' ! j))"
proof (induction sched arbitrary: ps g)
  case Nil
  then show ?case by simp
next
  case (Cons i sched)
  from Cons.prems obtain ps1 g1 where s1: "step env dirs i (ps, g) = Inr (ps1, g1)"
    "exec env dirs sched (ps1, g1) = Inr (ps', g')"
    by (auto split: sum.splits)
  from step_phase_mono [OF s1(1)] Cons.IH [OF s1(2)] show ?case
    by (auto intro: order_trans)
qed


lemma step_progress:
  assumes "step env dirs i (ps, g) = Inr (ps', g')" and "i < length dirs" and "length ps = length dirs"
  shows "min 2 (Suc (phase_rank (ps ! i))) \<le> phase_rank (ps' ! i)"
  using assms
  by (auto simp: step_def split: if_splits phase.splits sum.splits)

lemma step_count:
  assumes "step env dirs i (ps, g) = Inr (ps', g')" and "length ps = length dirs"
    and "\<forall>j<length dirs. 2 \<le> phase_rank (ps ! j) + count_list (i # sched) j"
  shows "\<forall>j<length dirs. 2 \<le> phase_rank (ps' ! j) + count_list sched j"
proof (intro allI impI)
  fix j assume j: "j < length dirs"
  from step_phase_mono [OF assms(1)] j assms(2)
  have m: "phase_rank (ps ! j) \<le> phase_rank (ps' ! j)" by simp
  from assms(3) j have c: "2 \<le> phase_rank (ps ! j) + count_list (i # sched) j" by simp
  show "2 \<le> phase_rank (ps' ! j) + count_list sched j"
  proof (cases "j = i")
    case True
    from step_progress [OF assms(1) _ assms(2)] j True
    have "min 2 (Suc (phase_rank (ps ! j))) \<le> phase_rank (ps' ! j)" by simp
    then show ?thesis using c True by (simp add: min_def split: if_splits)
  next
    case False
    then show ?thesis using c m by simp
  qed
qed

lemma exec_fair:
  assumes "length ps = length dirs"
    and "\<forall>j<length dirs. 2 \<le> phase_rank (ps ! j) + count_list sched j"
    and "exec env dirs sched (ps, g) = Inr (ps', g')"
  shows "all_done ps'"
  using assms
proof (induction sched arbitrary: ps g)
  case Nil
  have "ps ! j = Finished" if "j < length ps" for j
  proof -
    have "2 \<le> phase_rank (ps ! j)" using Nil(1,2) that by simp
    then show ?thesis by (cases "ps ! j") simp_all
  qed
  then show ?case using Nil(3) by (simp add: all_done_def list_all_length)
next
  case (Cons i sched)
  from Cons.prems(3) obtain ps1 g1 where s1: "step env dirs i (ps, g) = Inr (ps1, g1)"
    "exec env dirs sched (ps1, g1) = Inr (ps', g')"
    by (auto split: sum.splits)
  have l: "length ps1 = length dirs" using step_phase_mono [OF s1(1)] Cons.prems(1) by simp
  from step_count [OF s1(1) Cons.prems(1,2)] Cons.IH [OF l _ s1(2)] show ?case by blast
qed

lemma spawn_fair:
  assumes "\<forall>i<length dirs. 2 \<le> count_list sched i"
    and "exec env dirs sched (spawn dirs) = Inr (ps', g')"
  shows "all_done ps'"
proof -
  have "\<forall>j<length dirs. 2 \<le> phase_rank (replicate (length dirs) Spawned ! j) + count_list sched j"
    using assms(1) by simp
  then show ?thesis
    using exec_fair [of "replicate (length dirs) Spawned" dirs sched env "\<lparr>summary = [], cmds = []\<rparr>" ps' g']
      assms(2) by (simp add: spawn_def)
qed

lemma tasks_inv_rows:
  assumes "distinct dirs" and "tasks_inv env dirs (ps, g)" and "r \<in> set (summary g)"
  shows "\<exists>i<length dirs. (ps ! i = Recorded \<and> r = initial_row env (dirs ! i))
                        \<or> (ps ! i = Finished \<and> r = final_row env (dirs ! i))"
proof -
  from assms(2) have dist: "distinct (map hd (summary g))"
    and img: "hd ` set (summary g) = {dirs ! j | j. j < length dirs \<and> ps ! j \<noteq> Spawned}"
    and rec: "\<And>j. j < length dirs \<Longrightarrow> ps ! j = Recorded \<Longrightarrow> initial_row env (dirs ! j) \<in> set (summary g)"
    and fin: "\<And>j. j < length dirs \<Longrightarrow> ps ! j = Finished \<Longrightarrow> final_row env (dirs ! j) \<in> set (summary g)"
    by (simp_all add: tasks_inv_def)
  have inj: "inj_on hd (set (summary g))" using dist by (simp add: distinct_map)
  from assms(3) have "hd r \<in> hd ` set (summary g)" by simp
  then obtain i where i: "i < length dirs" "ps ! i \<noteq> Spawned" "hd r = dirs ! i"
    unfolding img by blast
  show ?thesis
  proof (cases "ps ! i")
    case Spawned
    then show ?thesis using i by simp
  next
    case Recorded
    have "hd r = hd (initial_row env (dirs ! i))" using i(3) by (simp add: initial_row_simps)
    from inj_onD [OF inj this assms(3) rec [OF i(1) Recorded]]
    have "r = initial_row env (dirs ! i)" .
    then show ?thesis using i Recorded by blast
  next
    case Finished
    have "hd r = hd (final_row env (dirs ! i))" using i(3) by (simp add: final_row_simps)
    from inj_onD [OF inj this assms(3) fin [OF i(1) Finished]]
    have "r = final_row env (dirs ! i)" .
    then show ?thesis using i Finished by blast
  qed
qed

lemma tasks_inv_done:
  assumes "distinct dirs" and "tasks_inv env dirs (ps, g)" and "all_done ps"
  shows "length (summary g) = length dirs" and "set (map hd (summary g)) = set dirs"
    and "set (summary g) = final_row env ` set dirs"
proof -
  from assms(2) have len: "length ps = length dirs" and dist: "distinct (map hd (summary g))"
    and img: "hd ` set (summary g) = {dirs ! j | j. j < length dirs \<and> ps ! j \<noteq> Spawned}"
    and fin: "\<And>j. j < length dirs \<Longrightarrow> ps ! j = Finished \<Longrightarrow> final_row env (dirs ! j) \<in> set (summary g)"
    by (simp_all add: tasks_inv_def)
  have f: "ps ! i = Finished" if "i < length dirs" for i
    using all_done_nth [OF assms(3)] that len by simp
  have "{dirs ! j | j. j < length dirs \<and> ps ! j \<noteq> Spawned} = set dirs"
    using f by (auto simp: set_conv_nth)
  then show paths: "set (map hd (summary g)) = set dirs" using img by simp
  have "length (summary g) = length (map hd (summary g))" by simp
  also have "\<dots> = card (set (map hd (summary g)))" using dist by (simp only: distinct_card)
  also have "\<dots> = card (set dirs)" using paths by simp
  also have "\<dots> = length dirs" using assms(1) by (rule distinct_card)
  finally show "length (summary g) = length dirs" .
  show "set (summary g) = final_row env ` set dirs"
  proof
    show "set (summary g) \<subseteq> final_row env ` set dirs"
    proof
      fix r assume "r \<in> set (summary g)"
      from tasks_inv_rows [OF assms(1,2) this] f show "r \<in> final_row env ` set dirs"
        by auto
    qed
    show "final_row env ` set dirs \<subseteq> set (summary g)"
      using fin f by (auto simp: set_conv_nth)
  qed
qed

lemma getGitStatus_status: "snd (getGitStatus res) = Pending \<or> snd (getGitStatus res) = Unknown"
  by (auto simp: getGitStatus_def Let_def split: prod.splits list.splits)

lemma initial_row_status:
  "initial_row env d ! 2 = Pending \<or> initial_row env d ! 2 = Unknown"
  using getGitStatus_status [of "remote_v env d"]
  by (auto simp: initial_row_def split: prod.splits)

lemma final_row_status:
  "final_row env d ! 2 = Success \<or> final_row env d ! 2 = Failed"
  by (simp add: final_row_simps final_status_def)

lemma distinct_count_list: "distinct xs \<Longrightarrow> x \<in> set xs \<Longrightarrow> count_list xs x = 1"
  by (induction xs) auto

lemma initial_row_eq:
  "initial_row env d = [d, fst (getGitStatus (remote_v env d)), snd (getGitStatus (remote_v env d))]"
  by (simp add: initial_row_def split: prod.splits)

lemma final_row_eq:
  "final_row env d = [d, fst (getGitStatus (remote_v env d)), if pull env d then Failed else Success]"
  by (simp add: final_row_def initial_row_eq final_status_def)

lemma exec_spawn:
  "\<exists>ps g. exec env dirs sched (spawn dirs) = Inr (ps, g) \<and> basic_inv dirs (ps, g)"
  using exec_basic [OF spawn_basic, where env = env and dirs = dirs and sched = sched] by auto

lemma exec_spawn_inv:
  "distinct dirs \<Longrightarrow> exec env dirs sched (spawn dirs) = Inr (ps, g) \<Longrightarrow> tasks_inv env dirs (ps, g)"
  using exec_tasks_inv [OF _ spawn_tasks_inv] by blast

lemma rows_wf_hd: "rows_wf rows \<Longrightarrow> r \<in> set rows \<Longrightarrow> hd r = r ! 0"
  by (cases r) (auto simp: rows_wf_def list_all_iff)

text \<open>
  Claim C8. Let the directories of the tasks be pairwise distinct. Under every schedule the
  tasks run without a panic and the paths of the collection stay pairwise distinct. Once
  every task has finished, the collection holds exactly as many rows as there are tasks,
  its paths are the directories of the tasks, and the row of each directory carries the
  status of its pull: no append and no status update is lost, no row is duplicated. Every
  schedule that gives each task its two critical sections ends with every task finished.
\<close>

theorem concurrent_syncs_records:
  assumes "distinct dirs"
  shows "\<exists>ps g. exec env dirs sched (spawn dirs) = Inr (ps, g)
       \<and> distinct (map hd (summary g))
       \<and> (all_done ps \<longrightarrow>
            length (summary g) = length dirs
          \<and> set (map hd (summary g)) = set dirs
          \<and> (\<forall>d\<in>set dirs. [d, fst (getGitStatus (remote_v env d)),
                               if pull env d then Failed else Success] \<in> set (summary g)))
       \<and> ((\<forall>i<length dirs. 2 \<le> count_list sched i) \<longrightarrow> all_done ps)"
proof -
  from exec_spawn obtain ps g where e: "exec env dirs sched (spawn dirs) = Inr (ps, g)" by blast
  have inv: "tasks_inv env dirs (ps, g)" using assms e by (rule exec_spawn_inv)
  have a: "distinct (map hd (summary g))" using inv by (simp add: tasks_inv_def)
  have b: "length (summary g) = length dirs \<and> set (map hd (summary g)) = set dirs
          \<and> (\<forall>d\<in>set dirs. [d, fst (getGitStatus (remote_v env d)),
                               if pull env d then Failed else Success] \<in> set (summary g))"
    if "all_done ps"
    using tasks_inv_done [OF assms inv that] by (auto simp: final_row_eq [symmetric])
  have c: "all_done ps" if "\<forall>i<length dirs. 2 \<le> count_list sched i"
    using that e by (rule spawn_fair)
  show ?thesis using e a b c by blast
qed

text \<open>
  Claim C4. Let the directories of the tasks be pairwise distinct, and let task \<open>i\<close> have
  finished under some schedule. Then the collection holds a row for its directory, and every
  row with that path has the status \<open>Failed\<close> when \<open>git pull\<close> returned an error in that
  directory and \<open>Success\<close> when it did not. Once every task has finished, the status of every
  row is \<open>Success\<close> or \<open>Failed\<close>.
\<close>

theorem pull_outcome_recorded:
  assumes "distinct dirs" and "exec env dirs sched (spawn dirs) = Inr (ps, g)"
    and "i < length dirs" and "ps ! i = Finished"
  shows "(\<exists>remote. [dirs ! i, remote, if pull env (dirs ! i) then Failed else Success] \<in> set (summary g))
       \<and> (\<forall>r\<in>set (summary g). r ! 0 = dirs ! i \<longrightarrow>
             r ! 2 = (if pull env (dirs ! i) then Failed else Success))
       \<and> (all_done ps \<longrightarrow> (\<forall>r\<in>set (summary g). r ! 2 = Success \<or> r ! 2 = Failed))"
proof -
  have inv: "tasks_inv env dirs (ps, g)" using assms(1,2) by (rule exec_spawn_inv)
  then have len: "length ps = length dirs" by (simp add: tasks_inv_def)
  have "final_row env (dirs ! i) \<in> set (summary g)"
    using inv assms(3,4) by (simp add: tasks_inv_def)
  then have a: "\<exists>remote. [dirs ! i, remote, if pull env (dirs ! i) then Failed else Success] \<in> set (summary g)"
    unfolding final_row_eq by blast
  have b: "r ! 2 = (if pull env (dirs ! i) then Failed else Success)"
    if r: "r \<in> set (summary g)" "r ! 0 = dirs ! i" for r
  proof -
    from tasks_inv_rows [OF assms(1) inv r(1)] obtain j where j: "j < length dirs"
      "(ps ! j = Recorded \<and> r = initial_row env (dirs ! j)) \<or> (ps ! j = Finished \<and> r = final_row env (dirs ! j))"
      by blast
    then have "r ! 0 = dirs ! j" by (auto simp: initial_row_simps final_row_simps)
    then have "j = i" using r(2) j(1) assms(1,3) by (simp add: nth_eq_iff_index_eq)
    then have "r = final_row env (dirs ! i)" using j(2) assms(4) by auto
    then show ?thesis by (simp add: final_row_eq)
  qed
  have c: "r ! 2 = Success \<or> r ! 2 = Failed" if d: "all_done ps" and r: "r \<in> set (summary g)" for r
  proof -
    from tasks_inv_done(3) [OF assms(1) inv d] r obtain d' where "r = final_row env d'" by auto
    then show ?thesis using final_row_status by simp
  qed
  show ?thesis using a b c by blast
qed

text \<open>
  Claim C3, amended. Let the directories of the tasks be pairwise distinct. In every state
  that a schedule reaches, the status of every row is one of \<open>Pending\<close>, \<open>Unknown\<close>,
  \<open>Success\<close>, \<open>Failed\<close>, and the phase of a task tells the status of the row of its
  directory: no row before the task has recorded it; the status that \<open>getGitStatus\<close>
  returned, \<open>Pending\<close> or \<open>Unknown\<close>, from then until the pull is over; \<open>Success\<close> or
  \<open>Failed\<close> once the task has finished. Phases only advance as the schedule goes on, so
  the status is assigned when the row is created and changes once, when the outcome of the
  pull is stored.
\<close>

theorem status_lifecycle:
  assumes "distinct dirs"
  shows "\<exists>ps g. exec env dirs sched (spawn dirs) = Inr (ps, g)
       \<and> distinct (map hd (summary g))
       \<and> (\<forall>r\<in>set (summary g). r ! 2 = Pending \<or> r ! 2 = Unknown \<or> r ! 2 = Success \<or> r ! 2 = Failed)
       \<and> (\<forall>i<length dirs.
            (ps ! i = Spawned \<longrightarrow> (\<forall>r\<in>set (summary g). r ! 0 \<noteq> dirs ! i))
          \<and> (ps ! i = Recorded \<longrightarrow>
               (\<exists>r\<in>set (summary g). r ! 0 = dirs ! i)
             \<and> (\<forall>r\<in>set (summary g). r ! 0 = dirs ! i \<longrightarrow>
                   r ! 2 = snd (getGitStatus (remote_v env (dirs ! i)))
                 \<and> (r ! 2 = Pending \<or> r ! 2 = Unknown)))
          \<and> (ps ! i = Finished \<longrightarrow>
               (\<exists>r\<in>set (summary g). r ! 0 = dirs ! i)
             \<and> (\<forall>r\<in>set (summary g). r ! 0 = dirs ! i \<longrightarrow>
                   r ! 2 = (if pull env (dirs ! i) then Failed else Success))))
       \<and> (\<forall>sched' ps' g'. exec env dirs (sched @ sched') (spawn dirs) = Inr (ps', g') \<longrightarrow>
            (\<forall>i<length dirs. phase_rank (ps ! i) \<le> phase_rank (ps' ! i)))"
proof -
  from exec_spawn obtain ps g where e: "exec env dirs sched (spawn dirs) = Inr (ps, g)" by blast
  have inv: "tasks_inv env dirs (ps, g)" using assms e by (rule exec_spawn_inv)
  then have len: "length ps = length dirs" and wf: "rows_wf (summary g)"
    and dist: "distinct (map hd (summary g))"
    and img: "hd ` set (summary g) = {dirs ! j | j. j < length dirs \<and> ps ! j \<noteq> Spawned}"
    and rec: "\<And>j. j < length dirs \<Longrightarrow> ps ! j = Recorded \<Longrightarrow> initial_row env (dirs ! j) \<in> set (summary g)"
    and fin: "\<And>j. j < length dirs \<Longrightarrow> ps ! j = Finished \<Longrightarrow> final_row env (dirs ! j) \<in> set (summary g)"
    by (simp_all add: tasks_inv_def)
  have row: "\<exists>j<length dirs. r ! 0 = dirs ! j \<and>
               ((ps ! j = Recorded \<and> r = initial_row env (dirs ! j))
              \<or> (ps ! j = Finished \<and> r = final_row env (dirs ! j)))"
    if "r \<in> set (summary g)" for r
    using tasks_inv_rows [OF assms inv that] by (auto simp: initial_row_simps final_row_simps)
  have own: "(ps ! i = Recorded \<and> r = initial_row env (dirs ! i))
              \<or> (ps ! i = Finished \<and> r = final_row env (dirs ! i))"
    if "r \<in> set (summary g)" "r ! 0 = dirs ! i" "i < length dirs" for r i
  proof -
    from row [OF that(1)] obtain j where j: "j < length dirs" "r ! 0 = dirs ! j"
      "(ps ! j = Recorded \<and> r = initial_row env (dirs ! j))
              \<or> (ps ! j = Finished \<and> r = final_row env (dirs ! j))" by blast
    then have "j = i" using that(2,3) assms by (simp add: nth_eq_iff_index_eq)
    then show ?thesis using j(3) by simp
  qed
  have a: "r ! 2 = Pending \<or> r ! 2 = Unknown \<or> r ! 2 = Success \<or> r ! 2 = Failed"
    if "r \<in> set (summary g)" for r
    using row [OF that] initial_row_status final_row_status by auto
  have b: "r ! 0 \<noteq> dirs ! i" if "i < length dirs" "ps ! i = Spawned" "r \<in> set (summary g)" for i r
    using own [OF that(3) _ that(1)] that(2) by auto
  have c1: "\<exists>r\<in>set (summary g). r ! 0 = dirs ! i" if "i < length dirs" "ps ! i = Recorded" for i
    using rec [OF that] by (auto intro: bexI [of _ "initial_row env (dirs ! i)"] simp: initial_row_simps)
  have c2: "r ! 2 = snd (getGitStatus (remote_v env (dirs ! i))) \<and> (r ! 2 = Pending \<or> r ! 2 = Unknown)"
    if "i < length dirs" "ps ! i = Recorded" "r \<in> set (summary g)" "r ! 0 = dirs ! i" for i r
  proof -
    from own [OF that(3,4,1)] that(2) have "r = initial_row env (dirs ! i)" by simp
    then show ?thesis using initial_row_status [of env "dirs ! i"] by (simp add: initial_row_eq)
  qed
  have d1: "\<exists>r\<in>set (summary g). r ! 0 = dirs ! i" if "i < length dirs" "ps ! i = Finished" for i
    using fin [OF that] by (auto intro: bexI [of _ "final_row env (dirs ! i)"] simp: final_row_simps)
  have d2: "r ! 2 = (if pull env (dirs ! i) then Failed else Success)"
    if "i < length dirs" "ps ! i = Finished" "r \<in> set (summary g)" "r ! 0 = dirs ! i" for i r
  proof -
    from own [OF that(3,4,1)] that(2) have "r = final_row env (dirs ! i)" by simp
    then show ?thesis by (simp add: final_row_eq)
  qed
  have m: "phase_rank (ps ! i) \<le> phase_rank (ps' ! i)"
    if "exec env dirs (sched @ sched') (spawn dirs) = Inr (ps', g')" "i < length dirs" for sched' ps' g' i
  proof -
    from that(1) e have "exec env dirs sched' (ps, g) = Inr (ps', g')" by (simp add: exec_append)
    from exec_phase_mono [OF this] that(2) len show ?thesis by simp
  qed
  have lifecycle: "\<forall>i<length dirs.
            (ps ! i = Spawned \<longrightarrow> (\<forall>r\<in>set (summary g). r ! 0 \<noteq> dirs ! i))
          \<and> (ps ! i = Recorded \<longrightarrow>
               (\<exists>r\<in>set (summary g). r ! 0 = dirs ! i)
             \<and> (\<forall>r\<in>set (summary g). r ! 0 = dirs ! i \<longrightarrow>
                   r ! 2 = snd (getGitStatus (remote_v env (dirs ! i)))
                 \<and> (r ! 2 = Pending \<or> r ! 2 = Unknown)))
          \<and> (ps ! i = Finished \<longrightarrow>
               (\<exists>r\<in>set (summary g). r ! 0 = dirs ! i)
             \<and> (\<forall>r\<in>set (summary g). r ! 0 = dirs ! i \<longrightarrow>
                   r ! 2 = (if pull env (dirs ! i) then Failed else Success)))"
    using b c1 c2 d1 d2 by blast
  have mono: "\<forall>sched' ps' g'. exec env dirs (sched @ sched') (spawn dirs) = Inr (ps', g') \<longrightarrow>
            (\<forall>i<length dirs. phase_rank (ps ! i) \<le> phase_rank (ps' ! i))"
    using m by blast
  have stat: "\<forall>r\<in>set (summary g). r ! 2 = Pending \<or> r ! 2 = Unknown \<or> r ! 2 = Success \<or> r ! 2 = Failed"
    using a by blast
  show ?thesis
    by (intro exI [of _ ps] exI [of _ g] conjI e dist stat lifecycle mono)
qed

text \<open>A task that is given its two turns without interruption runs \<open>pullRepository\<close>.\<close>

lemma exec_pullRepository:
  "exec env [dir] [0, 0] (spawn [dir])
     = (case pullRepository env dir \<lparr>summary = [], cmds = []\<rparr> of
          Inl p \<Rightarrow> Inl p
        | Inr g \<Rightarrow> Inr ([Finished], g))"
  by (simp add: spawn_def step_def pullRepository_def split: sum.splits)

section \<open>Properties of the command\<close>

lemma walk_names_visit_err:
  assumes "\<And>k p st. k \<in> set ks \<Longrightarrow> fst (walk visit p k st) = ErrNil \<or> fst (walk visit p k st) = SkipDir"
  shows "fst (walk_names visit p ks st) = ErrNil \<or> fst (walk_names visit p ks st) = SkipDir"
  using assms
proof (induction ks arbitrary: st)
  case Nil
  then show ?case by simp
next
  case (Cons k ks)
  let ?f = "filepath_Join p (name_of k)"
  have ih: "fst (walk_names visit p ks st1) = ErrNil \<or> fst (walk_names visit p ks st1) = SkipDir" for st1
    using Cons.IH Cons.prems by simp
  show ?case
  proof (cases "is_NoStat k")
    case True
    then show ?thesis using ih [of st] by (simp add: visit_err)
  next
    case False
    obtain err st1 where w: "walk visit ?f k st = (err, st1)" by (cases "walk visit ?f k st")
    have e: "err = ErrNil \<or> err = SkipDir" using Cons.prems [of k ?f st] w by simp
    show ?thesis
    proof (cases "err \<noteq> ErrNil \<and> (\<not> is_dir k \<or> err \<noteq> SkipDir)")
      case True
      then have "walk_names visit p (k # ks) st = (err, st1)" using False w by (simp add: Let_def)
      then show ?thesis using e by simp
    next
      case no: False
      then have "walk_names visit p (k # ks) st = walk_names visit p ks st1"
        using False w by (auto simp add: Let_def)
      then show ?thesis using ih [of st1] by simp
    qed
  qed
qed

lemma walk_visit_err:
  "fst (walk visit p t st) = ErrNil \<or> fst (walk visit p t st) = SkipDir"
proof (induction t arbitrary: p st)
  case (Folder n kids)
  show ?case
  proof (cases "n = str ''.git''")
    case True
    then show ?thesis by (simp add: visit_info)
  next
    case False
    have "fst (walk_names visit p kids st) = ErrNil \<or> fst (walk_names visit p kids st) = SkipDir"
      using Folder.IH by (rule walk_names_visit_err)
    then show ?thesis using False by (simp add: visit_info)
  qed
qed (simp_all add: visit_err visit_info)

lemma Walk_visit_nil: "fst (Walk visit root t []) = ErrNil"
  using walk_visit_err [of root "rename (basename root) t" "[]"]
  by (auto simp: Walk_def split: prod.splits)

lemma run_cases:
  "\<exists>ps g. exec env (map path_str (snd (Walk visit (Split_slash dir) (fs dir) []))) sched
             (spawn (map path_str (snd (Walk visit (Split_slash dir) (fs dir) [])))) = Inr (ps, g)
         \<and> run env fs sched (dir # rest) = (if all_done ps then Returns g else Blocks)"
proof -
  obtain err spawned where w: "Walk visit (Split_slash dir) (fs dir) [] = (err, spawned)"
    by (cases "Walk visit (Split_slash dir) (fs dir) []")
  have e: "err = ErrNil" using Walk_visit_nil [of "Split_slash dir" "fs dir"] w by simp
  from exec_spawn [of env "map path_str spawned" sched] obtain ps g where
    x: "exec env (map path_str spawned) sched (spawn (map path_str spawned)) = Inr (ps, g)" by blast
  have "run env fs sched (dir # rest) = (if all_done ps then Returns g else Blocks)"
    using w e x by (simp add: run_def)
  then show ?thesis using w x by auto
qed

lemma run_no_panic: "run env fs sched (dir # rest) \<noteq> Panics p"
  using run_cases [of env dir fs sched rest] by (auto split: if_splits)

text \<open>
  Claim C5. Under every schedule and whatever the probes return, the tasks run without a
  panic, and at every moment \<open>git pull\<close> has been run in a directory as many times as there
  are finished tasks for it: never twice by one task. Once every task has finished,
  \<open>git pull\<close> has been run in each directory as many times as the directory was spawned:
  exactly once per directory when the directories are pairwise distinct; and every schedule
  that gives each task its two turns at the lock lets every task finish. So whenever \<open>run\<close>
  returns, on a tree whose directories hold no two entries of the same name, \<open>git pull\<close>
  has been run exactly once in each directory that the walk reported, and \<open>run\<close> returns
  under every schedule that gives each task its two turns.
\<close>

theorem pull_invoked_once:
  "(\<exists>ps g. exec env dirs sched (spawn dirs) = Inr (ps, g)
      \<and> (\<forall>d. count_list (cmds g) (GitPull d)
               = card {i. i < length dirs \<and> dirs ! i = d \<and> ps ! i = Finished})
      \<and> (all_done ps \<longrightarrow>
            (\<forall>d. count_list (cmds g) (GitPull d) = count_list dirs d)
          \<and> (distinct dirs \<longrightarrow> (\<forall>d\<in>set dirs. count_list (cmds g) (GitPull d) = 1)))
      \<and> ((\<forall>i<length dirs. 2 \<le> count_list sched i) \<longrightarrow> all_done ps))
   \<and> (\<forall>g. distinct_names (fs dir) \<and> entry_names (fs dir)
          \<and> run env fs sched (dir # rest) = Returns g \<longrightarrow>
          (\<forall>p\<in>set (snd (Walk visit (Split_slash dir) (fs dir) [])).
               count_list (cmds g) (GitPull (path_str p)) = 1))
   \<and> ((\<forall>i<length (snd (Walk visit (Split_slash dir) (fs dir) [])). 2 \<le> count_list sched i) \<longrightarrow>
        (\<exists>g. run env fs sched (dir # rest) = Returns g))"
proof -
  have first: "\<exists>ps g. exec env dirs sched (spawn dirs) = Inr (ps, g)
      \<and> (\<forall>d. count_list (cmds g) (GitPull d)
               = card {i. i < length dirs \<and> dirs ! i = d \<and> ps ! i = Finished})
      \<and> (all_done ps \<longrightarrow>
            (\<forall>d. count_list (cmds g) (GitPull d) = count_list dirs d)
          \<and> (distinct dirs \<longrightarrow> (\<forall>d\<in>set dirs. count_list (cmds g) (GitPull d) = 1)))
      \<and> ((\<forall>i<length dirs. 2 \<le> count_list sched i) \<longrightarrow> all_done ps)"
  proof -
    from exec_spawn obtain ps g where e: "exec env dirs sched (spawn dirs) = Inr (ps, g)"
      and inv: "basic_inv dirs (ps, g)" by blast
    have a: "count_list (cmds g) (GitPull d)
               = card {i. i < length dirs \<and> dirs ! i = d \<and> ps ! i = Finished}" for d
      using inv by (simp add: basic_inv_def)
    have b: "all_done ps" if "\<forall>i<length dirs. 2 \<le> count_list sched i"
      using that e by (rule spawn_fair)
    have c: "count_list (cmds g) (GitPull d) = count_list dirs d" if "all_done ps" for d
      using inv that by (rule basic_inv_done)
    have d: "count_list (cmds g) (GitPull d) = 1"
      if "all_done ps" "distinct dirs" "d \<in> set dirs" for d
      using c [OF that(1)] distinct_count_list [OF that(2,3)] by simp
    show ?thesis using e a b c d by blast
  qed
  let ?S = "snd (Walk visit (Split_slash dir) (fs dir) [])"
  let ?dirs = "map path_str ?S"
  from run_cases [of env dir fs sched rest] obtain ps g0 where
    x: "exec env ?dirs sched (spawn ?dirs) = Inr (ps, g0)"
    and r: "run env fs sched (dir # rest) = (if all_done ps then Returns g0 else Blocks)" by blast
  have inv: "basic_inv ?dirs (ps, g0)"
    using exec_basic [OF spawn_basic, of env ?dirs sched] x by auto
  have second: "count_list (cmds g) (GitPull (path_str p)) = 1"
    if "distinct_names (fs dir)" "entry_names (fs dir)" "run env fs sched (dir # rest) = Returns g"
      "p \<in> set ?S" for g p
  proof -
    from that(3) r have g: "g = g0" and fin: "all_done ps" by (auto split: if_splits)
    have "distinct ?dirs" using that(1,2) by (rule Walk_visit_distinct_str)
    moreover have "path_str p \<in> set ?dirs" using that(4) by simp
    ultimately have "count_list ?dirs (path_str p) = 1" by (rule distinct_count_list)
    then show ?thesis using basic_inv_done [OF inv fin, of "path_str p"] g by simp
  qed
  have third: "\<exists>g. run env fs sched (dir # rest) = Returns g"
    if "\<forall>i<length ?S. 2 \<le> count_list sched i"
  proof -
    have "\<forall>i<length ?dirs. 2 \<le> count_list sched i" using that by simp
    then have "all_done ps" using x by (rule spawn_fair)
    then show ?thesis using r by simp
  qed
  show ?thesis using first second third by blast
qed

text \<open>
  Claim C7. The process ends with a non-zero exit code only when \<open>run\<close> was never called, and
  then the log level was invalid or the command line was refused (a flag error, or a number
  of arguments other than one). It never ends with a panic. Whenever \<open>run\<close> returns, the
  exit code is 0, whatever the probes and the pulls returned; and with a valid log level and
  one argument, every schedule that gives each task its two critical sections makes \<open>run\<close>
  return.
\<close>

theorem main_exit_code:
  "(\<forall>c. fst (main levelOK cl env fs sched) = Exit c \<and> c \<noteq> 0 \<longrightarrow>
       snd (main levelOK cl env fs sched) = None
     \<and> (\<not> levelOK \<or> cl = FlagError \<or> (\<exists>args. cl = Positional args \<and> length args \<noteq> 1)))
 \<and> fst (main levelOK cl env fs sched) \<noteq> Crash
 \<and> (\<forall>g. snd (main levelOK cl env fs sched) = Some (Returns g) \<longrightarrow>
       fst (main levelOK cl env fs sched) = Exit 0)
 \<and> (\<forall>dir. levelOK \<and> cl = Positional [dir]
         \<and> (\<forall>i<length (snd (Walk visit (Split_slash dir) (fs dir) [])). 2 \<le> count_list sched i) \<longrightarrow>
       (\<exists>g. main levelOK cl env fs sched = (Exit 0, Some (Returns g))))"
proof -
  have a: "snd (main levelOK cl env fs sched) = None
     \<and> (\<not> levelOK \<or> cl = FlagError \<or> (\<exists>args. cl = Positional args \<and> length args \<noteq> 1))"
    if "fst (main levelOK cl env fs sched) = Exit c" "c \<noteq> 0" for c
    using that
    by (cases cl) (auto simp: main_def Execute_def split: if_splits option.splits result.splits)
  have b: "fst (main levelOK cl env fs sched) \<noteq> Crash"
  proof (cases cl)
    case (Positional args)
    show ?thesis
    proof (cases "length args = 1")
      case True
      then obtain dir where "args = [dir]" by (cases args) auto
      then show ?thesis using Positional run_no_panic [of env fs sched dir "[]"]
        by (auto simp: main_def Execute_def split: option.splits result.splits)
    next
      case False
      then show ?thesis using Positional by (simp add: main_def Execute_def)
    qed
  qed (simp_all add: main_def Execute_def)
  have c: "fst (main levelOK cl env fs sched) = Exit 0"
    if "snd (main levelOK cl env fs sched) = Some (Returns g)" for g
    using that
    by (cases cl) (auto simp: main_def Execute_def split: if_splits option.splits result.splits)
  have d: "\<exists>g. main levelOK cl env fs sched = (Exit 0, Some (Returns g))"
    if "levelOK" "cl = Positional [dir]"
      "\<forall>i<length (snd (Walk visit (Split_slash dir) (fs dir) [])). 2 \<le> count_list sched i" for dir
  proof -
    let ?dirs = "map path_str (snd (Walk visit (Split_slash dir) (fs dir) []))"
    from run_cases [of env dir fs sched "[]"] obtain ps g where
      x: "exec env ?dirs sched (spawn ?dirs) = Inr (ps, g)"
      and r: "run env fs sched [dir] = (if all_done ps then Returns g else Blocks)" by blast
    have "\<forall>i<length ?dirs. 2 \<le> count_list sched i" using that(3) by simp
    then have "all_done ps" using x by (rule spawn_fair)
    then have "run env fs sched [dir] = Returns g" using r by simp
    then show ?thesis using that(1,2) by (simp add: main_def Execute_def)
  qed
  show ?thesis using a b c d by blast
qed

section \<open>Example runs\<close>

lemmas run_simps = spawn_def step_def pullRepository_record_def pullRepository_pull_def
  getGitStatus_def TrimSpace_def IsSpace_def Fields.simps str_def
  Pending_def Unknown_def Success_def Failed_def

lemma example_exec:
  "exec \<lparr>remote_v = (\<lambda>d. if d = str ''a'' then (str ''o u (fetch)'', False) else ([], True)),
         pull = (\<lambda>d. d = str ''a'')\<rparr>
     [str ''a'', str ''b''] [0, 1, 1, 0] (spawn [str ''a'', str ''b''])
   = Inr ([Finished, Finished],
          \<lparr>summary = [[str ''a'', str ''u'', Failed], [str ''b'', [], Success]],
           cmds = [GitRemote (str ''a''), GitRemote (str ''b''), GitPull (str ''b''), GitPull (str ''a'')]\<rparr>)"
  by (simp add: run_simps)

lemma example_exec_partial:
  "exec \<lparr>remote_v = (\<lambda>d. if d = str ''a'' then (str ''o u (fetch)'', False) else ([], True)),
         pull = (\<lambda>d. d = str ''a'')\<rparr>
     [str ''a'', str ''b''] [0, 1] (spawn [str ''a'', str ''b''])
   = Inr ([Recorded, Recorded],
          \<lparr>summary = [[str ''a'', str ''u'', Pending], [str ''b'', [], Unknown]],
           cmds = [GitRemote (str ''a''), GitRemote (str ''b'')]\<rparr>)"
  by (simp add: run_simps)

theorem concurrent_syncs_records_witness:
  "distinct [str ''a'', str ''b'']
   \<and> (\<exists>ps g. exec \<lparr>remote_v = (\<lambda>d. if d = str ''a'' then (str ''o u (fetch)'', False) else ([], True)),
                    pull = (\<lambda>d. d = str ''a'')\<rparr>
                [str ''a'', str ''b''] [0, 1, 1, 0] (spawn [str ''a'', str ''b'']) = Inr (ps, g)
        \<and> all_done ps \<and> length (summary g) = 2
        \<and> set (map hd (summary g)) = {str ''a'', str ''b''}
        \<and> summary g = [[str ''a'', str ''u'', Failed], [str ''b'', [], Success]])"
proof -
  let ?env = "\<lparr>remote_v = (\<lambda>d. if d = str ''a'' then (str ''o u (fetch)'', False) else ([], True)),
                pull = (\<lambda>d. d = str ''a'')\<rparr>"
  have d: "distinct [str ''a'', str ''b'']" by (simp add: str_def)
  have f: "\<forall>i<length [str ''a'', str ''b'']. 2 \<le> count_list [0, 1, 1, 0] i"
    by (simp add: numeral_2_eq_2 all_less_Suc_split)
  from concurrent_syncs_records [OF d, of ?env "[0, 1, 1, 0]"] f obtain ps g where
    e: "exec ?env [str ''a'', str ''b''] [0, 1, 1, 0] (spawn [str ''a'', str ''b'']) = Inr (ps, g)"
    and a: "all_done ps" "length (summary g) = 2" "set (map hd (summary g)) = {str ''a'', str ''b''}"
    by auto
  have "summary g = [[str ''a'', str ''u'', Failed], [str ''b'', [], Success]]"
    using e example_exec by simp
  then show ?thesis using d e a by blast
qed

theorem pull_outcome_recorded_witness:
  "[str ''a'', str ''u'', Failed]
     \<in> set (summary (snd (projr (exec
          \<lparr>remote_v = (\<lambda>d. if d = str ''a'' then (str ''o u (fetch)'', False) else ([], True)),
           pull = (\<lambda>d. d = str ''a'')\<rparr>
          [str ''a'', str ''b''] [0, 1, 1, 0] (spawn [str ''a'', str ''b''])))))
   \<and> [str ''b'', [], Success]
     \<in> set (summary (snd (projr (exec
          \<lparr>remote_v = (\<lambda>d. if d = str ''a'' then (str ''o u (fetch)'', False) else ([], True)),
           pull = (\<lambda>d. d = str ''a'')\<rparr>
          [str ''a'', str ''b''] [0, 1, 1, 0] (spawn [str ''a'', str ''b''])))))"
proof -
  let ?env = "\<lparr>remote_v = (\<lambda>d. if d = str ''a'' then (str ''o u (fetch)'', False) else ([], True)),
                pull = (\<lambda>d. d = str ''a'')\<rparr>"
  let ?g = "\<lparr>summary = [[str ''a'', str ''u'', Failed], [str ''b'', [], Success]],
           cmds = [GitRemote (str ''a''), GitRemote (str ''b''), GitPull (str ''b''), GitPull (str ''a'')]\<rparr>"
  have d: "distinct [str ''a'', str ''b'']" by (simp add: str_def)
  have i: "(0::nat) < length [str ''a'', str ''b'']" "[Finished, Finished] ! 0 = Finished" by simp_all
  from pull_outcome_recorded [OF d example_exec i]
  have "\<exists>remote. [str ''a'', remote, Failed] \<in> set (summary ?g)" by simp
  then show ?thesis unfolding example_exec by simp
qed

theorem status_lifecycle_witness:
  "distinct [str ''a'', str ''b'']
   \<and> exec \<lparr>remote_v = (\<lambda>d. if d = str ''a'' then (str ''o u (fetch)'', False) else ([], True)),
           pull = (\<lambda>d. d = str ''a'')\<rparr>
       [str ''a'', str ''b''] [0, 1] (spawn [str ''a'', str ''b''])
     = Inr ([Recorded, Recorded],
          \<lparr>summary = [[str ''a'', str ''u'', Pending], [str ''b'', [], Unknown]],
           cmds = [GitRemote (str ''a''), GitRemote (str ''b'')]\<rparr>)
   \<and> exec \<lparr>remote_v = (\<lambda>d. if d = str ''a'' then (str ''o u (fetch)'', False) else ([], True)),
           pull = (\<lambda>d. d = str ''a'')\<rparr>
       [str ''a'', str ''b''] ([0, 1] @ [1, 0]) (spawn [str ''a'', str ''b''])
     = Inr ([Finished, Finished],
          \<lparr>summary = [[str ''a'', str ''u'', Failed], [str ''b'', [], Success]],
           cmds = [GitRemote (str ''a''), GitRemote (str ''b''), GitPull (str ''b''), GitPull (str ''a'')]\<rparr>)"
proof -
  let ?env = "\<lparr>remote_v = (\<lambda>d. if d = str ''a'' then (str ''o u (fetch)'', False) else ([], True)),
                pull = (\<lambda>d. d = str ''a'')\<rparr>"
  have d: "distinct [str ''a'', str ''b'']" by (simp add: str_def)
  from status_lifecycle [OF d, of ?env "[0, 1]"] obtain ps g where
    "exec ?env [str ''a'', str ''b''] [0, 1] (spawn [str ''a'', str ''b'']) = Inr (ps, g)" by blast
  then show ?thesis using d example_exec example_exec_partial by simp
qed

text \<open>
  Claim C3 as stated fails: the row of a repository whose probe fails is created with the
  status \<open>Unknown\<close>, which is none of \<open>Pending\<close>, \<open>Success\<close>, \<open>Failed\<close>.
\<close>

theorem status_Unknown_counterexample:
  "summary (pullRepository_record \<lparr>remote_v = (\<lambda>d. ([], True)), pull = (\<lambda>d. False)\<rparr>
              (str ''r'') \<lparr>summary = [], cmds = []\<rparr>)
     = [[str ''r'', [], Unknown]]
   \<and> Unknown \<noteq> Pending \<and> Unknown \<noteq> Success \<and> Unknown \<noteq> Failed"
  by (simp add: run_simps)

lemma example_run_failures:
  "run \<lparr>remote_v = (\<lambda>d. if d = str ''r'' then (str ''origin'', False) else ([], True)),
        pull = (\<lambda>d. d = str ''r'')\<rparr>
     (\<lambda>d. Folder (str ''r'') [Folder (str ''.git'') [File (str ''HEAD'')],
                              Folder (str ''sub'') [Folder (str ''.git'') []]])
     [0, 1, 1, 0] [str ''r'']
   = Returns \<lparr>summary = [[str ''r'', [], Failed], [str ''r/sub'', [], Success]],
              cmds = [GitRemote (str ''r''), GitRemote (str ''r/sub''),
                      GitPull (str ''r/sub''), GitPull (str ''r'')]\<rparr>"
  by (simp add: run_def all_done_def Walk_def visit_def filepath_Join_def filepath_Dir_def Clean_def
        rooted_form_def is_rooted_def basename_def clean_elems.simps run_simps)

text \<open>
  A repository with a nested one: the probe of the first prints a malformed line, the
  probe of the second fails, both rows start as \<open>Unknown\<close>, and each of the two directories
  is pulled once.
\<close>

theorem pull_invoked_once_witness:
  "(\<exists>g. run \<lparr>remote_v = (\<lambda>d. if d = str ''r'' then (str ''origin'', False) else ([], True)),
             pull = (\<lambda>d. d = str ''r'')\<rparr>
          (\<lambda>d. Folder (str ''r'') [Folder (str ''.git'') [File (str ''HEAD'')],
                                   Folder (str ''sub'') [Folder (str ''.git'') []]])
          [0, 1, 1, 0] [str ''r''] = Returns g
      \<and> count_list (cmds g) (GitPull (str ''r'')) = 1
      \<and> count_list (cmds g) (GitPull (str ''r/sub'')) = 1
      \<and> summary g = [[str ''r'', [], Failed], [str ''r/sub'', [], Success]])
   \<and> (\<exists>ps g. exec \<lparr>remote_v = (\<lambda>d. if d = str ''r'' then (str ''origin'', False) else ([], True)),
                    pull = (\<lambda>d. d = str ''r'')\<rparr>
                [str ''r'', str ''r/sub''] [0, 1, 1, 0] (spawn [str ''r'', str ''r/sub'']) = Inr (ps, g)
        \<and> all_done ps
        \<and> count_list (cmds g) (GitPull (str ''r'')) = 1
        \<and> count_list (cmds g) (GitPull (str ''r/sub'')) = 1)
   \<and> snd (getGitStatus (str ''origin'', False)) = Unknown
   \<and> snd (getGitStatus ([], True)) = Unknown"
proof -
  let ?env = "\<lparr>remote_v = (\<lambda>d. if d = str ''r'' then (str ''origin'', False) else ([], True)),
                pull = (\<lambda>d. d = str ''r'')\<rparr>"
  let ?t = "Folder (str ''r'') [Folder (str ''.git'') [File (str ''HEAD'')],
                               Folder (str ''sub'') [Folder (str ''.git'') []]]"
  let ?fs = "\<lambda>d::gostring. ?t"
  let ?dirs = "[str ''r'', str ''r/sub'']"
  have w: "snd (Walk visit (Split_slash (str ''r'')) (?fs (str ''r'')) [])
             = [[str ''r''], [str ''r'', str ''sub'']]"
    by (simp add: Walk_def visit_def filepath_Join_def filepath_Dir_def Clean_def rooted_form_def
          is_rooted_def basename_def clean_elems.simps str_def)
  have t: "distinct_names (?fs (str ''r''))" "entry_names (?fs (str ''r''))"
    by (simp_all add: entry_name_def named_def str_def)
  have f: "\<forall>i<length (snd (Walk visit (Split_slash (str ''r'')) (?fs (str ''r'')) [])).
             2 \<le> count_list [0, 1, 1, 0] i"
    unfolding w by (simp add: numeral_2_eq_2 all_less_Suc_split)
  have d: "distinct ?dirs" by (simp add: str_def)
  have f': "\<forall>i<length ?dirs. 2 \<le> count_list [0, 1, 1, 0] i"
    by (simp add: numeral_2_eq_2 all_less_Suc_split)
  note th = pull_invoked_once [of ?env ?dirs "[0, 1, 1, 0]" ?fs "str ''r''" "[]"]
  from th f obtain g where g: "run ?env ?fs [0, 1, 1, 0] [str ''r''] = Returns g" by blast
  from th t g have "\<forall>p\<in>set (snd (Walk visit (Split_slash (str ''r'')) (?fs (str ''r'')) [])).
               count_list (cmds g) (GitPull (path_str p)) = 1" by blast
  then have c: "count_list (cmds g) (GitPull (str ''r'')) = 1"
    "count_list (cmds g) (GitPull (str ''r/sub'')) = 1"
    unfolding w by (simp_all add: str_def)
  have s: "summary g = [[str ''r'', [], Failed], [str ''r/sub'', [], Success]]"
    using g example_run_failures by simp
  have a: "\<exists>g. run ?env ?fs [0, 1, 1, 0] [str ''r''] = Returns g
      \<and> count_list (cmds g) (GitPull (str ''r'')) = 1
      \<and> count_list (cmds g) (GitPull (str ''r/sub'')) = 1
      \<and> summary g = [[str ''r'', [], Failed], [str ''r/sub'', [], Success]]"
    using g c s by blast
  from th f' d obtain ps g' where
    e: "exec ?env ?dirs [0, 1, 1, 0] (spawn ?dirs) = Inr (ps, g')" and fin: "all_done ps"
    and c': "\<forall>d\<in>set ?dirs. count_list (cmds g') (GitPull d) = 1"
    by blast
  have b: "\<exists>ps g. exec ?env ?dirs [0, 1, 1, 0] (spawn ?dirs) = Inr (ps, g)
        \<and> all_done ps
        \<and> count_list (cmds g) (GitPull (str ''r'')) = 1
        \<and> count_list (cmds g) (GitPull (str ''r/sub'')) = 1"
    using e fin c' by simp
  have "snd (getGitStatus (str ''origin'', False)) = Unknown"
    "snd (getGitStatus ([], True)) = Unknown"
    by (simp_all add: run_simps)
  then show ?thesis using a b by blast
qed

theorem main_exit_code_witness:
  "main True (Positional [str ''r'']) \<lparr>remote_v = (\<lambda>d. ([], True)), pull = (\<lambda>d. True)\<rparr>
     (\<lambda>d. Folder (str ''r'') [Folder (str ''.git'') []]) [0, 0]
   = (Exit 0, Some (Returns \<lparr>summary = [[str ''r'', [], Failed]],
                            cmds = [GitRemote (str ''r''), GitPull (str ''r'')]\<rparr>))
   \<and> main False (Positional [str ''r'']) \<lparr>remote_v = (\<lambda>d. ([], True)), pull = (\<lambda>d. True)\<rparr>
     (\<lambda>d. Folder (str ''r'') [Folder (str ''.git'') []]) [0, 0] = (Exit 1, None)
   \<and> main True (Positional []) \<lparr>remote_v = (\<lambda>d. ([], True)), pull = (\<lambda>d. True)\<rparr>
     (\<lambda>d. Folder (str ''r'') [Folder (str ''.git'') []]) [0, 0] = (Exit 1, None)"
proof -
  let ?env = "\<lparr>remote_v = (\<lambda>d. ([], True)), pull = (\<lambda>d. True)\<rparr>"
  let ?fs = "\<lambda>d::gostring. Folder (str ''r'') [Folder (str ''.git'') []]"
  have w: "snd (Walk visit (Split_slash (str ''r'')) (?fs (str ''r'')) []) = [[str ''r'']]"
    by (simp add: Walk_def visit_def filepath_Join_def filepath_Dir_def Clean_def rooted_form_def
          is_rooted_def basename_def clean_elems.simps str_def)
  have f: "\<forall>i<length (snd (Walk visit (Split_slash (str ''r'')) (?fs (str ''r'')) [])).
             2 \<le> count_list [0, 0] i"
    unfolding w by simp
  from main_exit_code [of True "Positional [str ''r'']" ?env ?fs "[0, 0]"] f
  obtain g where g: "main True (Positional [str ''r'']) ?env ?fs [0, 0] = (Exit 0, Some (Returns g))"
    by blast
  have "main True (Positional [str ''r'']) ?env ?fs [0, 0]
          = (Exit 0, Some (Returns \<lparr>summary = [[str ''r'', [], Failed]],
                            cmds = [GitRemote (str ''r''), GitPull (str ''r'')]\<rparr>))"
    by (simp add: main_def Execute_def run_def Walk_def visit_def filepath_Join_def filepath_Dir_def
          Clean_def rooted_form_def is_rooted_def basename_def clean_elems.simps
          all_done_def run_simps)
  moreover have "main False (Positional [str ''r'']) ?env ?fs [0, 0] = (Exit 1, None)"
    by (simp add: main_def)
  moreover have "main True (Positional []) ?env ?fs [0, 0] = (Exit 1, None)"
    by (simp add: main_def Execute_def)
  ultimately show ?thesis using g by simp
qed

end
